theory Spec2Isabelle
  imports Main "HOL-Library.Word"
begin

section \<open>Single-precision floating point\<close>

text \<open>
  The program computes in the C++ type \<open>float\<close>.  It is modelled as IEEE-754 binary32 in the
  default rounding mode (round to nearest, ties to even), every operation of the source
  rounded once to single precision, as on a target that evaluates \<open>float\<close> expressions in
  \<open>float\<close>.  Every finite binary32 value is an integer multiple of \<open>2^-149\<close>, the smallest
  subnormal, and below \<open>2^128\<close>; \<open>Fin s m\<close> is the value \<open>(-1)^s * m * 2^-149\<close>, so that
  \<open>Fin False 0\<close> and \<open>Fin True 0\<close> are the two zeros and \<open>Fin False (2^149)\<close> is \<open>1.0f\<close>.
  \<open>Inf s\<close> is the infinity of sign \<open>s\<close>.  All NaNs are identified: the model does not follow
  the sign and payload of a NaN.
\<close>

datatype float32 = NaN | Inf bool | Fin bool nat

type_synonym int32 = "32 word"

text \<open>
  \<open>bit_length n\<close> is the number of binary digits of \<open>n\<close>.
\<close>

fun bit_length :: "nat \<Rightarrow> nat" where
  "bit_length n = (if n = 0 then 0 else Suc (bit_length (n div 2)))"

text \<open>\<open>rne num den\<close>: the integer nearest to \<open>num / den\<close>, a tie going to the even one.\<close>

definition rne :: "nat \<Rightarrow> nat \<Rightarrow> nat" where
  "rne num den =
     (let q = num div den; r = num mod den
      in if 2 * r < den then q
         else if den < 2 * r then q + 1
         else if even q then q else q + 1)"

text \<open>
  \<open>round_units num den\<close> rounds \<open>num / den\<close>, counted in units of \<open>2^-149\<close>, to 24 significant
  bits: below \<open>2^24\<close> units (subnormals and the first binade) the spacing is one unit, above
  it is \<open>2^k\<close> units where \<open>k\<close> is the number of bits beyond 24.
\<close>

definition round_units :: "nat \<Rightarrow> nat \<Rightarrow> nat" where
  "round_units num den =
     (let k = bit_length (num div den) - 24
      in rne num (den * 2 ^ k) * 2 ^ k)"

text \<open>A rounded magnitude of \<open>2^128\<close> (\<open>2^277\<close> units) or more overflows to infinity.\<close>

definition pack :: "bool \<Rightarrow> nat \<Rightarrow> float32" where
  "pack s m = (if m < 2 ^ 277 then Fin s m else Inf s)"

definition rounded :: "bool \<Rightarrow> nat \<Rightarrow> nat \<Rightarrow> float32" where
  "rounded s num den = pack s (round_units num den)"

text \<open>
  Negation, addition, subtraction, multiplication and division.  An exact sum of zero is
  \<open>+0\<close> unless both operands are \<open>-0\<close>; \<open>x - y\<close> is \<open>x + (-y)\<close>; the sign of a product or
  quotient is the exclusive or of the signs; \<open>0 * inf\<close>, \<open>inf - inf\<close>, \<open>0 / 0\<close> and
  \<open>inf / inf\<close> are NaN, and a non-zero finite number divided by zero is an infinity.
\<close>

fun fneg :: "float32 \<Rightarrow> float32" where
  "fneg NaN = NaN"
| "fneg (Inf s) = Inf (\<not> s)"
| "fneg (Fin s m) = Fin (\<not> s) m"

fun fadd :: "float32 \<Rightarrow> float32 \<Rightarrow> float32" where
  "fadd NaN y = NaN"
| "fadd x NaN = NaN"
| "fadd (Inf s) (Inf t) = (if s = t then Inf s else NaN)"
| "fadd (Inf s) (Fin t n) = Inf s"
| "fadd (Fin s m) (Inf t) = Inf t"
| "fadd (Fin s m) (Fin t n) =
     (if s = t then rounded s (m + n) 1
      else if m = n then Fin False 0
      else if n < m then rounded s (m - n) 1
      else rounded t (n - m) 1)"

definition fsub :: "float32 \<Rightarrow> float32 \<Rightarrow> float32" where
  "fsub x y = fadd x (fneg y)"

fun fmul :: "float32 \<Rightarrow> float32 \<Rightarrow> float32" where
  "fmul NaN y = NaN"
| "fmul x NaN = NaN"
| "fmul (Inf s) (Inf t) = Inf (s \<noteq> t)"
| "fmul (Inf s) (Fin t n) = (if n = 0 then NaN else Inf (s \<noteq> t))"
| "fmul (Fin s m) (Inf t) = (if m = 0 then NaN else Inf (s \<noteq> t))"
| "fmul (Fin s m) (Fin t n) = rounded (s \<noteq> t) (m * n) (2 ^ 149)"

fun fdiv :: "float32 \<Rightarrow> float32 \<Rightarrow> float32" where
  "fdiv NaN y = NaN"
| "fdiv x NaN = NaN"
| "fdiv (Inf s) (Inf t) = NaN"
| "fdiv (Inf s) (Fin t n) = Inf (s \<noteq> t)"
| "fdiv (Fin s m) (Inf t) = Fin (s \<noteq> t) 0"
| "fdiv (Fin s m) (Fin t n) =
     (if n = 0 then (if m = 0 then NaN else Inf (s \<noteq> t))
      else rounded (s \<noteq> t) (m * 2 ^ 149) n)"

text \<open>The comparison \<open>==\<close> of C++: NaN equals nothing, the two zeros are equal.\<close>

fun feq :: "float32 \<Rightarrow> float32 \<Rightarrow> bool" where
  "feq (Fin s m) (Fin t n) = (m = n \<and> (s = t \<or> m = 0))"
| "feq (Inf s) (Inf t) = (s = t)"
| "feq x y = False"

fun is_finite :: "float32 \<Rightarrow> bool" where
  "is_finite (Fin s m) = True"
| "is_finite x = False"

text \<open>
  The largest finite value, \<open>(2^24 - 1) * 2^104\<close>, in units of \<open>2^-149\<close>.
\<close>

definition max_units :: nat where
  "max_units = (2 ^ 24 - 1) * 2 ^ 253"

text \<open>
  The conversion of an \<open>int\<close> to \<open>float\<close>, and the literals \<open>0.0f\<close>, \<open>0.5f\<close> and \<open>1.0f\<close>.
\<close>

definition float_of_int :: "int32 \<Rightarrow> float32" where
  "float_of_int w = rounded (sint w < 0) (nat \<bar>sint w\<bar> * 2 ^ 149) 1"

definition zero_f :: float32 where
  "zero_f = Fin False 0"

definition half_f :: float32 where
  "half_f = Fin False (2 ^ 148)"

definition one_f :: float32 where
  "one_f = Fin False (2 ^ 149)"

section \<open>The integrator\<close>

text \<open>
  An integrand is one of the external functions \<open>float f(float x, int intensity)\<close>; it is
  taken to be a function of its two arguments.  Besides the accumulated sum, the model of
  the loop keeps the list of the argument pairs the integrand was called with, in call
  order, so that what is passed to the integrand, and how often, can be stated.
\<close>

type_synonym integrand = "float32 \<Rightarrow> int32 \<Rightarrow> float32"

type_synonym call_log = "(float32 \<times> int32) list"

text \<open>
  The loop \<open>for (int i = 0; i < n; ++i) { float x = a + (i + 0.5f) * dx; sum += f(x, intensity); }\<close>
  from the state \<open>i\<close>, \<open>sum\<close>.  The comparison is the signed one; \<open>++i\<close> cannot overflow
  since \<open>i < n\<close>.
\<close>

function numericalIntegration_loop ::
  "integrand \<Rightarrow> float32 \<Rightarrow> float32 \<Rightarrow> int32 \<Rightarrow> int32 \<Rightarrow> int32 \<Rightarrow> float32 \<Rightarrow> call_log
     \<Rightarrow> float32 \<times> call_log" where
  "numericalIntegration_loop f a dx n intensity i sum_f log =
     (if i <s n
      then (let x = fadd a (fmul (fadd (float_of_int i) half_f) dx)
            in numericalIntegration_loop f a dx n intensity (i + 1)
                 (fadd sum_f (f x intensity)) (log @ [(x, intensity)]))
      else (sum_f, log))"
  by pat_completeness auto

termination
proof (relation "measure (\<lambda>(f, a, dx, n, intensity, i, sum_f, log). nat (sint n - sint i))")
  show "wf (measure (\<lambda>(f, a, dx, n, intensity, i, sum_f, log). nat (sint n - sint i)))"
    by simp
next
  fix f :: integrand and a dx :: float32 and n intensity i :: int32
    and sum_f x :: float32 and log :: call_log
  assume lt: "i <s n"
  then have "sint i < sint n" by (simp add: word_sless_alt)
  moreover have "sint n < 2 ^ 31" using sint_lt [of n] by simp
  moreover have "- (2 ^ 31) \<le> sint i" using sint_ge [of i] by simp
  ultimately have "sint (i + 1) = sint i + 1"
    by (simp add: sint_word_ariths signed_take_bit_int_eq_self)
  with \<open>sint i < sint n\<close>
  show "((f, a, dx, n, intensity, i + 1, fadd sum_f (f x intensity), log @ [(x, intensity)]),
         (f, a, dx, n, intensity, i, sum_f, log))
        \<in> measure (\<lambda>(f, a, dx, n, intensity, i, sum_f, log). nat (sint n - sint i))"
    by simp
qed

text \<open>
  \<open>numericalIntegration_run\<close> is the body of \<open>numericalIntegration\<close>: the returned value
  together with the calls made; \<open>numericalIntegration\<close> is the returned value.
\<close>

definition numericalIntegration_run ::
  "integrand \<Rightarrow> float32 \<Rightarrow> float32 \<Rightarrow> int32 \<Rightarrow> int32 \<Rightarrow> float32 \<times> call_log" where
  "numericalIntegration_run f a b n intensity =
     (let dx = fdiv (fsub b a) (float_of_int n);
          (sum_f, log) = numericalIntegration_loop f a dx n intensity 0 zero_f []
      in (fmul sum_f dx, log))"

definition numericalIntegration ::
  "integrand \<Rightarrow> float32 \<Rightarrow> float32 \<Rightarrow> int32 \<Rightarrow> int32 \<Rightarrow> float32" where
  "numericalIntegration f a b n intensity = fst (numericalIntegration_run f a b n intensity)"

section \<open>The driver\<close>

text \<open>
  The four integrands \<open>f1\<close> .. \<open>f4\<close> come from a library that is linked in, and \<open>std::atoi\<close>,
  \<open>std::atof\<close>, the clock and the number formatting of the output streams come from the C++
  library: they are the fields of a \<open>platform\<close>, and every statement about \<open>main\<close> holds for
  all of them.  \<open>atof\<close> stands for \<open>std::atof\<close> followed by the conversion of its \<open>double\<close>
  to \<open>float\<close>; \<open>elapsed\<close> is the \<open>double\<close> that \<open>end - start\<close> yields, of a type \<open>'d\<close> left
  open; \<open>show_float\<close> and \<open>show_double\<close> are the digits that \<open>operator<<\<close> produces for a
  \<open>float\<close> and a \<open>double\<close> under a given \<open>floatfield\<close> flag and precision.
\<close>

datatype floatfield = default_notation | fixed_notation

record 'd platform =
  f1 :: integrand
  f2 :: integrand
  f3 :: integrand
  f4 :: integrand
  atoi :: "string \<Rightarrow> int32"
  atof :: "string \<Rightarrow> float32"
  elapsed :: 'd
  show_float :: "floatfield \<Rightarrow> nat \<Rightarrow> float32 \<Rightarrow> string"
  show_double :: "floatfield \<Rightarrow> nat \<Rightarrow> 'd \<Rightarrow> string"

text \<open>A \<open>FuncPtr\<close> points to one of the four external functions; calling through it calls that one.\<close>

datatype FuncPtr = ptr_f1 | ptr_f2 | ptr_f3 | ptr_f4

fun call :: "'d platform \<Rightarrow> FuncPtr \<Rightarrow> integrand" where
  "call p ptr_f1 = f1 p"
| "call p ptr_f2 = f2 p"
| "call p ptr_f3 = f3 p"
| "call p ptr_f4 = f4 p"

text \<open>
  An output stream: its \<open>floatfield\<close> flag, its precision, and the characters written so far.
  A fresh stream has no \<open>floatfield\<close> flag set and precision 6.
\<close>

record ostream =
  notation_flag :: floatfield
  precision :: nat
  written :: string

definition fresh_stream :: ostream where
  "fresh_stream = \<lparr>notation_flag = default_notation, precision = 6, written = []\<rparr>"

definition put :: "string \<Rightarrow> ostream \<Rightarrow> ostream" where
  "put s os = os\<lparr>written := written os @ s\<rparr>"

definition setprecision :: "nat \<Rightarrow> ostream \<Rightarrow> ostream" where
  "setprecision d os = os\<lparr>precision := d\<rparr>"

definition fixed :: "ostream \<Rightarrow> ostream" where
  "fixed os = os\<lparr>notation_flag := fixed_notation\<rparr>"

definition put_float :: "'d platform \<Rightarrow> float32 \<Rightarrow> ostream \<Rightarrow> ostream" where
  "put_float p v os = put (show_float p (notation_flag os) (precision os) v) os"

definition put_double :: "'d platform \<Rightarrow> 'd \<Rightarrow> ostream \<Rightarrow> ostream" where
  "put_double p v os = put (show_double p (notation_flag os) (precision os) v) os"

definition endl :: "ostream \<Rightarrow> ostream" where
  "endl os = put [CHR 0x0A] os"

text \<open>
  What a run of the program leaves behind: the text on standard output and on standard
  error, the value \<open>main\<close> returns, and the calls made: \<open>Integrate\<close> for the call of
  \<open>numericalIntegration\<close>, \<open>Call\<close> for each call of an integrand through the pointer.
\<close>

datatype event = Integrate FuncPtr | Call FuncPtr float32 int32

record outcome =
  out :: string
  err :: string
  status :: int
  events :: "event list"

text \<open>The \<open>switch (functionId)\<close>; \<open>None\<close> is its \<open>default\<close> branch.\<close>

definition dispatch :: "int32 \<Rightarrow> FuncPtr option" where
  "dispatch functionId =
     (if functionId = 1 then Some ptr_f1
      else if functionId = 2 then Some ptr_f2
      else if functionId = 3 then Some ptr_f3
      else if functionId = 4 then Some ptr_f4
      else None)"

text \<open>
  \<open>main p prog args\<close>: the program run on platform \<open>p\<close> with \<open>argv[0] = prog\<close> and the further
  arguments \<open>args\<close>, so that \<open>argc = 1 + length args\<close>.
\<close>

definition main :: "'d platform \<Rightarrow> string \<Rightarrow> string list \<Rightarrow> outcome" where
  "main p prog args =
     (if 1 + length args < 6
      then \<lparr>out = [],
            err = written (endl (put '' <functionid> <a> <b> <n> <intensity>''
                    (put prog (put ''usage: '' fresh_stream)))),
            status = - 1, events = []\<rparr>
      else
        let functionId = atoi p (args ! 0);
            a = atof p (args ! 1);
            b = atof p (args ! 2);
            n = atoi p (args ! 3);
            intensity = atoi p (args ! 4)
        in case dispatch functionId of
             None \<Rightarrow>
               \<lparr>out = [],
                err = written (endl (put ''Error: Invalid function ID (must be 1, 2, 3, or 4)''
                        fresh_stream)),
                status = - 1, events = []\<rparr>
           | Some selectedFunc \<Rightarrow>
               let (result, log) = numericalIntegration_run (call p selectedFunc) a b n intensity;
                   os = endl (put_double p (elapsed p) (setprecision 6 (fixed
                          (put '' '' (put_float p result (setprecision 15 fresh_stream))))))
               in \<lparr>out = written os, err = [], status = 0,
                   events = Integrate selectedFunc # map (\<lambda>(x, k). Call selectedFunc x k) log\<rparr>)"

section \<open>The algorithm as the specification words it\<close>

text \<open>
  The sample point of index \<open>j\<close>, \<open>x_j = a + (j + 0.5) * dx\<close>, and the midpoint rule as the
  specification describes it: with \<open>dx = (b - a) / n\<close>, the values of the integrand at
  \<open>x_0, ..., x_(n-1)\<close> are added to a sum that starts at 0, in this order, and the sum is
  multiplied by \<open>dx\<close>.
\<close>

definition midpoint :: "float32 \<Rightarrow> float32 \<Rightarrow> nat \<Rightarrow> float32" where
  "midpoint a dx j = fadd a (fmul (fadd (float_of_int (word_of_nat j)) half_f) dx)"

definition spec_samples :: "float32 \<Rightarrow> float32 \<Rightarrow> int32 \<Rightarrow> float32 list" where
  "spec_samples a b n =
     (let dx = fdiv (fsub b a) (float_of_int n) in map (midpoint a dx) [0..<nat (sint n)])"

definition spec_integral :: "integrand \<Rightarrow> float32 \<Rightarrow> float32 \<Rightarrow> int32 \<Rightarrow> int32 \<Rightarrow> float32" where
  "spec_integral f a b n k =
     (let dx = fdiv (fsub b a) (float_of_int n)
      in fmul (foldl (\<lambda>s x. fadd s (f x k)) zero_f (spec_samples a b n)) dx)"

text \<open>
  The step \<open>dx = (b - a) / n\<close> and the sum of the sampled values before it is multiplied by \<open>dx\<close>.
\<close>

definition step_size :: "float32 \<Rightarrow> float32 \<Rightarrow> int32 \<Rightarrow> float32" where
  "step_size a b n = fdiv (fsub b a) (float_of_int n)"

definition sample_sum :: "integrand \<Rightarrow> float32 \<Rightarrow> float32 \<Rightarrow> int32 \<Rightarrow> int32 \<Rightarrow> float32" where
  "sample_sum f a b n k = foldl (\<lambda>s x. fadd s (f x k)) zero_f (spec_samples a b n)"

text \<open>
  The accumulation in ascending index order, as the specification words it: the sum over no
  sample is 0, and the sum over the samples \<open>0, ..., j\<close> is the sum over \<open>0, ..., j - 1\<close> plus
  the value at \<open>x_j\<close>.
\<close>

primrec ascending_sum :: "integrand \<Rightarrow> float32 \<Rightarrow> float32 \<Rightarrow> int32 \<Rightarrow> nat \<Rightarrow> float32" where
  "ascending_sum f a dx k 0 = zero_f"
| "ascending_sum f a dx k (Suc j) = fadd (ascending_sum f a dx k j) (f (midpoint a dx j) k)"

section \<open>Inputs for the examples\<close>

text \<open>
  Two integrands for the examples, \<open>f(x, k) = x\<close> and the constant \<open>f(x, k) = 1\<close>, and a
  platform on which to run \<open>main\<close>: its \<open>atoi\<close> and \<open>atof\<close> read a run of decimal digits, its
  \<open>f1\<close> is the identity, its other integrands are constant, and its formatting functions
  print place holders.
\<close>

definition id_integrand :: integrand where
  "id_integrand x k = x"

definition unit_integrand :: integrand where
  "unit_integrand x k = one_f"

fun digits_value :: "nat \<Rightarrow> string \<Rightarrow> nat" where
  "digits_value v [] = v"
| "digits_value v (c # cs) =
     (if 48 \<le> (of_char c :: nat) \<and> (of_char c :: nat) \<le> 57
      then digits_value (10 * v + (of_char c - 48)) cs else v)"

definition example_platform :: "nat platform" where
  "example_platform =
     \<lparr>f1 = id_integrand, f2 = unit_integrand, f3 = (\<lambda>x k. zero_f), f4 = (\<lambda>x k. half_f),
      atoi = (\<lambda>s. word_of_nat (digits_value 0 s)),
      atof = (\<lambda>s. float_of_int (word_of_nat (digits_value 0 s))),
      elapsed = 0,
      show_float = (\<lambda>fl d v. ''<result>''),
      show_double = (\<lambda>fl d v. ''<seconds>'')\<rparr>"

section \<open>Properties of the arithmetic\<close>

declare bit_length.simps [simp del]

declare numericalIntegration_loop.simps [simp del]

text \<open>Rules that evaluate the definitions on numerals.\<close>

lemmas eval_float =
  float_of_int_def one_f_def half_f_def zero_f_def rounded_def round_units_def rne_def
  pack_def fsub_def word_sless_alt word_sle_eq
  bit_length.simps [of "numeral w" for w]

lemmas eval_loop =
  numericalIntegration_loop.simps [where i = "numeral w" and n = "numeral v" for w v]
  numericalIntegration_loop.simps [where i = 0 and n = "numeral v" for v]
  numericalIntegration_loop.simps [where i = 1 and n = "numeral v" for v]
  numericalIntegration_def numericalIntegration_run_def

subsection \<open>Bit length and rounding to the nearest integer\<close>

lemma bit_length_0 [simp]: "bit_length 0 = 0"
  by (simp add: bit_length.simps)

lemma bit_length_1 [simp]: "bit_length (Suc 0) = 1"
  by (simp add: bit_length.simps [of "Suc 0"])

lemma bit_length_less: "n < 2 ^ bit_length n"
proof (induction n rule: bit_length.induct)
  case (1 n)
  show ?case
  proof (cases "n = 0")
    case True then show ?thesis by simp
  next
    case False
    then have "n div 2 < 2 ^ bit_length (n div 2)" using 1 by simp
    then have "n < 2 * 2 ^ bit_length (n div 2)" by linarith
    with False show ?thesis by (subst bit_length.simps) simp
  qed
qed

lemma bit_length_ge: "0 < n \<Longrightarrow> 2 ^ (bit_length n - 1) \<le> n"
proof (induction n rule: bit_length.induct)
  case (1 n)
  show ?case
  proof (cases "n div 2 = 0")
    case True
    with "1.prems" have "n = 1" by arith
    then show ?thesis by simp
  next
    case False
    then have pos: "0 < n div 2" by simp
    then have ih: "2 ^ (bit_length (n div 2) - 1) \<le> n div 2" using 1 by simp
    have "0 < bit_length (n div 2)" using pos by (subst bit_length.simps) simp
    then have "bit_length n - 1 = Suc (bit_length (n div 2) - 1)"
      using "1.prems" by (subst bit_length.simps) simp
    then show ?thesis using ih by simp
  qed
qed

lemma bit_length_le: "n < 2 ^ e \<Longrightarrow> bit_length n \<le> e"
proof (rule ccontr)
  assume a: "n < 2 ^ e" and "\<not> bit_length n \<le> e"
  then have "e \<le> bit_length n - 1" by simp
  then have "(2::nat) ^ e \<le> 2 ^ (bit_length n - 1)" by (simp add: power_increasing)
  moreover have "0 < n" using \<open>\<not> bit_length n \<le> e\<close> by (cases "n = 0") simp_all
  ultimately have "(2::nat) ^ e \<le> n" using bit_length_ge [of n] by (meson le_trans)
  with a show False by simp
qed

lemma bit_length_double: "0 < n \<Longrightarrow> bit_length (2 * n) = Suc (bit_length n)"
  by (subst bit_length.simps) simp

lemma bit_length_mult_pow: "0 < j \<Longrightarrow> bit_length (j * 2 ^ e) = bit_length j + e"
proof (induction e)
  case 0 then show ?case by simp
next
  case (Suc e)
  have "j * 2 ^ Suc e = 2 * (j * 2 ^ e)" by simp
  moreover have "0 < j * 2 ^ e" using Suc.prems by simp
  ultimately show ?case using Suc by (simp only: bit_length_double)
qed

lemma rne_exact: "0 < d \<Longrightarrow> rne (a * d) d = a"
  by (simp add: rne_def)

lemma rne_lower: "0 < d \<Longrightarrow> a * d \<le> num \<Longrightarrow> a \<le> rne num d"
proof -
  assume d: "0 < d" and le: "a * d \<le> num"
  then have "a \<le> num div d" by (simp add: less_eq_div_iff_mult_less_eq)
  then show ?thesis by (simp add: rne_def Let_def)
qed

lemma rne_upper: "0 < d \<Longrightarrow> num \<le> a * d \<Longrightarrow> rne num d \<le> a"
proof -
  assume d: "0 < d" and le: "num \<le> a * d"
  show ?thesis
  proof (cases "num = a * d")
    case True then show ?thesis using d by (simp add: rne_exact)
  next
    case False
    with le have "num < a * d" by simp
    then have "num div d < a" using d by (simp add: div_less_iff_less_mult)
    then show ?thesis by (simp add: rne_def Let_def)
  qed
qed

lemma rne_err:
  assumes "0 < D"
  shows "2 * \<bar>int (rne num D * D) - int num\<bar> \<le> int D"
proof -
  define q where "q = num div D"
  define r where "r = num mod D"
  have num: "int num = int q * int D + int r"
    unfolding q_def r_def by (metis div_mult_mod_eq of_nat_add of_nat_mult)
  have rD: "r < D" unfolding r_def using assms by simp
  consider (down) "rne num D = q" "2 * r \<le> D" | (up) "rne num D = q + 1" "D \<le> 2 * r"
    unfolding rne_def Let_def q_def [symmetric] r_def [symmetric]
    by (cases "2 * r < D"; cases "D < 2 * r"; cases "even q") simp_all
  then show ?thesis
  proof cases
    case down
    then show ?thesis using num by simp
  next
    case up
    have "int (rne num D * D) - int num = int D - int r"
      unfolding up(1) num by (simp add: algebra_simps)
    then show ?thesis using up(2) rD by simp
  qed
qed

subsection \<open>Rounding to 24 significant bits\<close>

text \<open>
  The rounded value lies between the powers of two around the quotient, stays below the
  largest finite value when the quotient does, is exact on what is representable, and in
  the normal range differs from the quotient by at most \<open>2^-24\<close> of it.
\<close>

lemma round_units_le_pow: "0 < den \<Longrightarrow> round_units num den \<le> 2 ^ max 24 (bit_length (num div den))"
proof -
  assume den: "0 < den"
  define q where "q = num div den"
  define L where "L = bit_length q"
  have "q < 2 ^ L" unfolding L_def by (rule bit_length_less)
  then have "Suc q \<le> 2 ^ L" by simp
  have "num < Suc q * den" unfolding q_def using den
    by (metis div_less_iff_less_mult lessI)
  also have "\<dots> \<le> 2 ^ L * den" using \<open>Suc q \<le> 2 ^ L\<close> by (rule mult_le_mono1)
  finally have num_le: "num \<le> 2 ^ L * den" by simp
  show ?thesis
  proof (cases "L \<le> 24")
    case True
    then have "(2::nat) ^ L \<le> 2 ^ 24" by (simp add: power_increasing del: power_numeral)
    with num_le have "num \<le> 2 ^ 24 * den"
      by (meson le_trans mult_le_mono1)
    then have "rne num den \<le> 2 ^ 24" using den by (rule rne_upper [rotated])
    moreover have "max 24 L = 24" using True by simp
    ultimately show ?thesis using True unfolding round_units_def Let_def q_def [symmetric] L_def [symmetric]
      by (simp del: power_numeral)
  next
    case False
    then have k: "L = 24 + (L - 24)" by simp
    have "(2::nat) ^ L = 2 ^ 24 * 2 ^ (L - 24)" by (subst k) (simp only: power_add)
    with num_le have "num \<le> 2 ^ 24 * 2 ^ (L - 24) * den" by simp
    then have "num \<le> 2 ^ 24 * (den * 2 ^ (L - 24))" by (simp only: ac_simps)
    then have "rne num (den * 2 ^ (L - 24)) \<le> 2 ^ 24" using den by (intro rne_upper) simp_all
    then have "rne num (den * 2 ^ (L - 24)) * 2 ^ (L - 24) \<le> 2 ^ 24 * 2 ^ (L - 24)"
      by (rule mult_le_mono1)
    also have "\<dots> = 2 ^ L" using \<open>2 ^ L = 2 ^ 24 * 2 ^ (L - 24)\<close> by simp
    finally show ?thesis using False unfolding round_units_def Let_def q_def [symmetric] L_def [symmetric]
      by (simp add: max_def del: power_numeral)
  qed
qed

lemma round_units_pos: "0 < den \<Longrightarrow> den \<le> num \<Longrightarrow> 0 < round_units num den"
proof -
  assume den: "0 < den" and le: "den \<le> num"
  define q where "q = num div den"
  define L where "L = bit_length q"
  have qpos: "0 < q" unfolding q_def using den le by (simp add: div_greater_zero_iff)
  have qnum: "q * den \<le> num" unfolding q_def by simp
  show ?thesis
  proof (cases "L \<le> 24")
    case True
    have "q \<le> rne num den" using den qnum by (rule rne_lower)
    with qpos True show ?thesis unfolding round_units_def Let_def q_def [symmetric] L_def [symmetric]
      by simp
  next
    case False
    have "2 ^ (L - 1) \<le> q" unfolding L_def using qpos by (rule bit_length_ge)
    moreover have "L - 1 = 23 + (L - 24)" using False by simp
    ultimately have "2 ^ 23 * 2 ^ (L - 24) \<le> q" by (simp only: power_add)
    then have "2 ^ 23 * 2 ^ (L - 24) * den \<le> q * den" by (rule mult_le_mono1)
    then have "2 ^ 23 * 2 ^ (L - 24) * den \<le> num" using qnum by (rule le_trans)
    then have "2 ^ 23 * (den * 2 ^ (L - 24)) \<le> num" by (simp only: ac_simps)
    then have "2 ^ 23 \<le> rne num (den * 2 ^ (L - 24))" using den by (intro rne_lower) simp_all
    then have "0 < rne num (den * 2 ^ (L - 24))" by simp
    then show ?thesis unfolding round_units_def Let_def q_def [symmetric] L_def [symmetric]
      by simp
  qed
qed

lemma round_units_ge_pow: 
  assumes den: "0 < den" and le: "2 ^ e * den \<le> num"
  shows "2 ^ e \<le> round_units num den"
proof -
  define q where "q = num div den"
  define L where "L = bit_length q"
  have qe: "2 ^ e \<le> q" unfolding q_def using den le by (simp add: less_eq_div_iff_mult_less_eq)
  have qnum: "q * den \<le> num" unfolding q_def by simp
  show ?thesis
  proof (cases "L \<le> 24")
    case True
    have "2 ^ e \<le> rne num den" using den le by (rule rne_lower)
    with True show ?thesis unfolding round_units_def Let_def q_def [symmetric] L_def [symmetric]
      by simp
  next
    case False
    have "(0::nat) < 2 ^ e" by simp
    with qe have qpos: "0 < q" by linarith
    have "2 ^ (L - 1) \<le> q" unfolding L_def using qpos by (rule bit_length_ge)
    moreover have L1: "L - 1 = 23 + (L - 24)" using False by simp
    ultimately have "2 ^ 23 * 2 ^ (L - 24) \<le> q" by (simp only: power_add)
    then have "2 ^ 23 * 2 ^ (L - 24) * den \<le> q * den" by (rule mult_le_mono1)
    then have "2 ^ 23 * 2 ^ (L - 24) * den \<le> num" using qnum by (rule le_trans)
    then have "2 ^ 23 * (den * 2 ^ (L - 24)) \<le> num" by (simp only: ac_simps)
    then have "2 ^ 23 \<le> rne num (den * 2 ^ (L - 24))" using den by (intro rne_lower) simp_all
    then have "2 ^ 23 * 2 ^ (L - 24) \<le> rne num (den * 2 ^ (L - 24)) * 2 ^ (L - 24)"
      by (rule mult_le_mono1)
    then have r: "2 ^ (L - 1) \<le> round_units num den"
      unfolding round_units_def Let_def q_def [symmetric] L_def [symmetric] L1 power_add .
    have "q < 2 ^ L" unfolding L_def by (rule bit_length_less)
    with qe have "(2::nat) ^ e < 2 ^ L" by (rule le_less_trans)
    then have "e < L" by (simp add: power_strict_increasing_iff)
    then have "(2::nat) ^ e \<le> 2 ^ (L - 1)" by (intro power_increasing) simp_all
    then show ?thesis using r by (rule le_trans)
  qed
qed

lemma round_units_finite_le_max:
  assumes den: "0 < den" and fin: "round_units num den < 2 ^ 277"
  shows "round_units num den \<le> max_units"
proof -
  define q where "q = num div den"
  define L where "L = bit_length q"
  define k where "k = L - 24"
  define r where "r = rne num (den * 2 ^ k)"
  have R: "round_units num den = r * 2 ^ k"
    unfolding round_units_def Let_def r_def k_def L_def q_def ..
  have up: "round_units num den \<le> 2 ^ max 24 L"
    unfolding L_def q_def using den by (rule round_units_le_pow)
  show ?thesis
  proof (cases "L < 277")
    case True
    then have "max 24 L \<le> 276" by simp
    then have "(2::nat) ^ max 24 L \<le> 2 ^ 276" by (rule power_increasing) simp
    with up have "round_units num den \<le> 2 ^ 276" by (rule le_trans)
    also have "(2::nat) ^ 276 \<le> max_units" by (simp add: max_units_def)
    finally show ?thesis .
  next
    case False
    then have k253: "253 \<le> k" unfolding k_def by simp
    define j where "j = k - 253"
    have kj: "k = j + 253" unfolding j_def using k253 by simp
    have R': "round_units num den = (r * 2 ^ j) * 2 ^ 253"
      unfolding R kj power_add by (simp only: ac_simps)
    have "(r * 2 ^ j) * 2 ^ 253 < 2 ^ 24 * 2 ^ 253" using fin unfolding R' by simp
    then have "r * 2 ^ j < 2 ^ 24" by (simp only: mult_less_cancel2)
    then have "r * 2 ^ j \<le> 2 ^ 24 - 1" by simp
    then have "(r * 2 ^ j) * 2 ^ 253 \<le> (2 ^ 24 - 1) * 2 ^ 253" by (rule mult_le_mono1)
    then show ?thesis unfolding R' max_units_def .
  qed
qed

lemma round_units_le_max:
  assumes den: "0 < den" and le: "num \<le> max_units * den"
  shows "round_units num den \<le> max_units"
proof -
  define q where "q = num div den"
  define L where "L = bit_length q"
  have up: "round_units num den \<le> 2 ^ max 24 L"
    unfolding L_def q_def using den by (rule round_units_le_pow)
  have "q \<le> max_units" unfolding q_def using den le
    by (metis div_le_mono nonzero_mult_div_cancel_right less_numeral_extra(3))
  also have "max_units < 2 ^ 277" by (simp add: max_units_def)
  finally have "L \<le> 277" unfolding L_def by (rule bit_length_le)
  show ?thesis
  proof (cases "L < 277")
    case True
    then have "max 24 L \<le> 276" by simp
    then have "(2::nat) ^ max 24 L \<le> 2 ^ 276" by (rule power_increasing) simp
    with up have "round_units num den \<le> 2 ^ 276" by (rule le_trans)
    also have "(2::nat) ^ 276 \<le> max_units" by (simp add: max_units_def)
    finally show ?thesis .
  next
    case False
    with \<open>L \<le> 277\<close> have k: "L - 24 = 253" by simp
    have "num \<le> (2 ^ 24 - 1) * (den * 2 ^ 253)" using le unfolding max_units_def
      by (simp only: ac_simps)
    then have "rne num (den * 2 ^ 253) \<le> 2 ^ 24 - 1" using den by (intro rne_upper) simp_all
    then have "rne num (den * 2 ^ 253) * 2 ^ 253 \<le> (2 ^ 24 - 1) * 2 ^ 253" by (rule mult_le_mono1)
    then show ?thesis
      unfolding round_units_def Let_def q_def [symmetric] L_def [symmetric] k max_units_def .
  qed
qed

lemma round_units_exact:
  assumes "2 ^ (bit_length num - 24) dvd num"
  shows "round_units num 1 = num"
proof -
  from assms obtain c where c: "num = c * 2 ^ (bit_length num - 24)"
    by (metis dvd_def mult.commute)
  have "rne num (1 * 2 ^ (bit_length num - 24)) = c"
    by (subst c) (simp add: rne_exact)
  then show ?thesis unfolding round_units_def Let_def using c by simp
qed

lemma round_units_small_int:
  assumes "j \<le> 2 ^ 24"
  shows "round_units (j * 2 ^ 149) 1 = j * 2 ^ 149"
proof (cases "j = 0")
  case True
  then show ?thesis by (simp add: round_units_def rne_def)
next
  case False
  then have pos: "0 < j" by simp
  define L where "L = bit_length j"
  have bl: "bit_length (j * 2 ^ 149) - 24 = L + 125"
    unfolding L_def using bit_length_mult_pow [OF pos, of 149] by simp
  have "j < 2 ^ 25" using assms by simp
  then have L25: "L \<le> 25" unfolding L_def by (rule bit_length_le)
  have "2 ^ (L + 125) dvd j * 2 ^ 149"
  proof (cases "L \<le> 24")
    case True
    then have "(2::nat) ^ (L + 125) dvd 2 ^ 149" by (intro le_imp_power_dvd) simp
    then show ?thesis by (rule dvd_mult)
  next
    case False
    with L25 have L: "L = 25" by simp
    have "2 ^ (L - 1) \<le> j" unfolding L_def using pos by (rule bit_length_ge)
    with assms L have j: "j = 2 ^ 24" by simp
    have "(2::nat) ^ 150 dvd 2 ^ 173" by (intro le_imp_power_dvd) simp
    then show ?thesis unfolding L j by (simp only: power_add [symmetric]) simp
  qed
  then show ?thesis unfolding bl [symmetric] by (rule round_units_exact)
qed

lemma round_units_rel_err:
  assumes den: "0 < den" and normal: "2 ^ 23 * den \<le> num"
  shows "2 ^ 24 * \<bar>int (round_units num den * den) - int num\<bar> \<le> int num"
proof -
  define q where "q = num div den"
  define L where "L = bit_length q"
  define k where "k = L - 24"
  define D where "D = den * 2 ^ k"
  have D0: "0 < D" unfolding D_def using den by simp
  have qe: "2 ^ 23 \<le> q" unfolding q_def using den normal
    by (simp add: less_eq_div_iff_mult_less_eq)
  have qnum: "q * den \<le> num" unfolding q_def by simp
  have "q < 2 ^ L" unfolding L_def by (rule bit_length_less)
  with qe have "(2::nat) ^ 23 < 2 ^ L" by (rule le_less_trans)
  then have "23 < L" by (simp only: power_strict_increasing_iff)
  then have L1: "L - 1 = 23 + k" unfolding k_def by simp
  have "(0::nat) < 2 ^ 23" by simp
  with qe have "0 < q" by linarith
  then have "2 ^ (L - 1) \<le> q" unfolding L_def by (rule bit_length_ge)
  then have "2 ^ 23 * 2 ^ k \<le> q" unfolding L1 power_add .
  then have "2 ^ 23 * 2 ^ k * den \<le> q * den" by (rule mult_le_mono1)
  then have "2 ^ 23 * 2 ^ k * den \<le> num" using qnum by (rule le_trans)
  then have DN: "2 ^ 23 * D \<le> num" unfolding D_def by (simp only: ac_simps)
  have R: "round_units num den * den = rne num D * D"
    unfolding round_units_def Let_def D_def k_def L_def q_def by (simp only: ac_simps)
  have "2 * \<bar>int (rne num D * D) - int num\<bar> \<le> int D" using D0 by (rule rne_err)
  then have "2 ^ 23 * (2 * \<bar>int (rne num D * D) - int num\<bar>) \<le> 2 ^ 23 * int D"
    by (rule mult_left_mono) simp
  moreover have "2 ^ 23 * int D \<le> int num" using DN by (metis of_nat_le_iff of_nat_mult of_nat_numeral of_nat_power)
  ultimately show ?thesis unfolding R by simp
qed

lemma scale_err:
  assumes P: "0 < P" and e: "c * \<bar>int (x * P) - int (y * P)\<bar> \<le> int (y * P)"
  shows "c * \<bar>int x - int y\<bar> \<le> int y"
proof -
  have "int (x * P) - int (y * P) = (int x - int y) * int P" by (simp add: algebra_simps)
  then have "\<bar>int (x * P) - int (y * P)\<bar> = \<bar>int x - int y\<bar> * int P"
    by (simp add: abs_mult)
  with e have "(c * \<bar>int x - int y\<bar>) * int P \<le> int y * int P" by (simp add: mult.assoc)
  then show ?thesis using P by (simp only: mult_le_cancel_right)
qed

lemma final_aux:
  fixes X D r :: int
  assumes "2 ^ 24 * \<bar>X - D\<bar> \<le> D" and "2 ^ 24 * \<bar>r - X\<bar> \<le> X"
  shows "2 ^ 22 * \<bar>r - D\<bar> \<le> D"
proof -
  have a: "2 ^ 24 * (X - D) \<le> D" "2 ^ 24 * (D - X) \<le> D"
    using assms(1) by (simp_all add: abs_if split: if_splits)
  have b: "2 ^ 24 * (r - X) \<le> X" "2 ^ 24 * (X - r) \<le> X"
    using assms(2) by (simp_all add: abs_if split: if_splits)
  from a b have "2 ^ 22 * (r - D) \<le> D" "2 ^ 22 * (D - r) \<le> D" by simp_all
  then show ?thesis by (simp add: abs_if)
qed

lemma round_units_abs_err:
  assumes den: "0 < den"
  shows "2 ^ 24 * \<bar>int (round_units num den * den) - int num\<bar> \<le> int num + 2 ^ 23 * int den"
proof (cases "2 ^ 23 * den \<le> num")
  case True
  from round_units_rel_err [OF den True]
  show ?thesis by simp
next
  case False
  then have "num < 2 ^ 23 * den" by simp
  then have "num div den < 2 ^ 23" using den by (simp add: div_less_iff_less_mult mult.commute)
  then have "num div den < 2 ^ 24" by simp
  then have "bit_length (num div den) \<le> 24" by (rule bit_length_le)
  then have R: "round_units num den = rne num den" by (simp add: round_units_def)
  have "2 * \<bar>int (rne num den * den) - int num\<bar> \<le> int den" using den by (rule rne_err)
  then have "2 ^ 23 * (2 * \<bar>int (rne num den * den) - int num\<bar>) \<le> 2 ^ 23 * int den"
    by (rule mult_left_mono) simp
  then show ?thesis unfolding R by simp
qed

lemma round_units_scaled_int:
  assumes P: "0 < P"
  shows "2 ^ 24 * \<bar>int (round_units (x * P) P) - int x\<bar> \<le> int x"
proof (cases "2 ^ 23 \<le> x")
  case True
  then have "2 ^ 23 * P \<le> x * P" by (rule mult_le_mono1)
  from round_units_rel_err [OF P this]
  have "2 ^ 24 * \<bar>int (round_units (x * P) P * P) - int (x * P)\<bar> \<le> int (x * P)" .
  with P show ?thesis by (rule scale_err)
next
  case False
  then have "x < 2 ^ 24" by simp
  then have "bit_length x \<le> 24" by (rule bit_length_le)
  then have "round_units (x * P) P = x" using P by (simp add: round_units_def rne_exact)
  then show ?thesis by simp
qed

lemma scale_err_add:
  assumes P: "0 < P"
    and e: "c * \<bar>int (x * (N * P)) - int (y * P)\<bar> \<le> int (y * P) + e * int (N * P)"
  shows "c * \<bar>int (x * N) - int y\<bar> \<le> int y + e * int N"
proof -
  have "int (x * (N * P)) - int (y * P) = (int (x * N) - int y) * int P"
    by (simp add: algebra_simps)
  then have "\<bar>int (x * (N * P)) - int (y * P)\<bar> = \<bar>int (x * N) - int y\<bar> * int P"
    by (simp add: abs_mult)
  moreover have "int (y * P) + e * int (N * P) = (int y + e * int N) * int P"
    by (simp add: algebra_simps)
  ultimately have "(c * \<bar>int (x * N) - int y\<bar>) * int P \<le> (int y + e * int N) * int P"
    using e by (simp add: mult.assoc)
  then show ?thesis using P by (simp only: mult_le_cancel_right)
qed

lemma total_err:
  fixes X D r N :: int
  assumes "2 ^ 24 * \<bar>X - D\<bar> \<le> D + 2 ^ 23 * N" and "2 ^ 24 * \<bar>r - X\<bar> \<le> X" and "0 \<le> N"
  shows "2 ^ 24 * \<bar>r - D\<bar> \<le> 3 * D + 2 ^ 24 * N"
proof -
  have a: "2 ^ 24 * (X - D) \<le> D + 2 ^ 23 * N" "2 ^ 24 * (D - X) \<le> D + 2 ^ 23 * N"
    using assms(1) by (simp_all add: abs_if split: if_splits)
  have b: "2 ^ 24 * (r - X) \<le> X" "2 ^ 24 * (X - r) \<le> X"
    using assms(2) by (simp_all add: abs_if split: if_splits)
  from a b assms(3) have "2 ^ 24 * (r - D) \<le> 3 * D + 2 ^ 24 * N"
    "2 ^ 24 * (D - r) \<le> 3 * D + 2 ^ 24 * N" by simp_all
  then show ?thesis by (simp add: abs_if)
qed

lemma no_overflow_aux:
  fixes X D N :: int
  assumes "2 ^ 24 * \<bar>X - D\<bar> \<le> D + 2 ^ 23 * N" and "D \<le> (2 ^ 24 - 2) * 2 ^ 253"
    and "N \<le> 2 ^ 24"
  shows "X \<le> (2 ^ 24 - 1) * 2 ^ 253"
proof -
  have "X - D \<le> \<bar>X - D\<bar>" by simp
  then have "2 ^ 24 * (X - D) \<le> 2 ^ 24 * \<bar>X - D\<bar>" by (rule mult_left_mono) simp
  then have "2 ^ 24 * (X - D) \<le> D + 2 ^ 23 * N" using assms(1) by (rule order_trans)
  with assms(2,3) show ?thesis by simp
qed

lemma round_units_zero: "0 < den \<Longrightarrow> round_units 0 den = 0"
  by (simp add: round_units_def rne_def)

subsection \<open>The arithmetic on known values\<close>

text \<open>
  The model against single-precision values known from the format: \<open>1/3\<close> is
  \<open>11184811 * 2^-25\<close>; \<open>0.1f + 0.2f\<close> is \<open>5033165 * 2^-24\<close>; \<open>2^24 + 1\<close> is not representable
  and converts to \<open>2^24\<close>; the smallest \<open>int\<close> converts exactly; twice the largest finite
  value overflows; half the smallest subnormal is a tie and rounds to the even 0; and the
  exceptional cases of division and multiplication.
\<close>

lemma known_third: "fdiv one_f (float_of_int 3) = Fin False (11184811 * 2 ^ 124)"
  by (simp add: eval_float)

lemma known_tenths:
  "fadd (Fin False (13421773 * 2 ^ 122)) (Fin False (13421773 * 2 ^ 123))
     = Fin False (5033165 * 2 ^ 125)"
  by (simp add: eval_float)

lemma known_conversions:
  "float_of_int 16777217 = Fin False (2 ^ 24 * 2 ^ 149)"
  "float_of_int (- 2147483648) = Fin True (2 ^ 31 * 2 ^ 149)"
  "float_of_int 0 = Fin False 0"
  by (simp_all add: eval_float)

lemma known_overflow: "fadd (Fin False max_units) (Fin False max_units) = Inf False"
  by (simp add: max_units_def eval_float)

lemma known_underflow:
  "fmul (Fin False 1) half_f = Fin False 0" "fmul (Fin False 3) half_f = Fin False 2"
  by (simp_all add: eval_float)

lemma known_exceptions:
  "fdiv one_f zero_f = Inf False" "fdiv zero_f zero_f = NaN" "fmul zero_f (Inf True) = NaN"
  "fsub (Inf False) (Inf False) = NaN" "fsub zero_f zero_f = Fin False 0"
  "fadd (Fin True 0) (Fin True 0) = Fin True 0"
  by (simp_all add: eval_float)

subsection \<open>The operations\<close>

lemma int_float: "j \<le> 2 ^ 24 \<Longrightarrow> rounded s (j * 2 ^ 149) 1 = Fin s (j * 2 ^ 149)"
proof -
  assume j: "j \<le> 2 ^ 24"
  then have "j * 2 ^ 149 \<le> 2 ^ 24 * 2 ^ 149" by (rule mult_le_mono1)
  also have "\<dots> < (2::nat) ^ 277" by simp
  finally show ?thesis using round_units_small_int [OF j]
    by (simp add: rounded_def pack_def del: power_numeral)
qed

lemma float_of_int_nonzero:
  assumes "sint n \<noteq> 0"
  shows "\<exists>m. float_of_int n = Fin (sint n < 0) m \<and> 2 ^ 149 \<le> m"
proof -
  define v where "v = nat \<bar>sint n\<bar>"
  have v1: "1 \<le> v" unfolding v_def using assms by simp
  have "sint n < 2 ^ 31" "- (2 ^ 31) \<le> sint n" using sint_lt [of n] sint_ge [of n] by simp_all
  then have v31: "v \<le> 2 ^ 31" unfolding v_def by simp
  have "2 ^ 149 * 1 \<le> v * 2 ^ 149" using v1 by simp
  then have lo: "2 ^ 149 \<le> round_units (v * 2 ^ 149) 1" by (intro round_units_ge_pow) simp_all
  have "v * 2 ^ 149 \<le> 2 ^ 31 * 2 ^ 149" using v31 by (rule mult_le_mono1)
  also have "\<dots> < (2::nat) ^ 181" by simp
  finally have "bit_length (v * 2 ^ 149 div 1) \<le> 181" by (simp add: bit_length_le del: power_numeral)
  then have "max 24 (bit_length (v * 2 ^ 149 div 1)) \<le> 181" by simp
  then have "(2::nat) ^ max 24 (bit_length (v * 2 ^ 149 div 1)) \<le> 2 ^ 181"
    by (rule power_increasing) simp
  moreover have "round_units (v * 2 ^ 149) 1 \<le> 2 ^ max 24 (bit_length (v * 2 ^ 149 div 1))"
    by (rule round_units_le_pow) simp
  ultimately have "round_units (v * 2 ^ 149) 1 \<le> 2 ^ 181" by (rule le_trans [rotated])
  also have "(2::nat) ^ 181 < 2 ^ 277" by simp
  finally have "float_of_int n = Fin (sint n < 0) (round_units (v * 2 ^ 149) 1)"
    unfolding float_of_int_def rounded_def pack_def v_def by simp
  with lo show ?thesis by blast
qed

lemma rounded_finite_le_max: "rounded s num (Suc 0) = Fin t d \<Longrightarrow> d \<le> max_units"
  using round_units_finite_le_max [of "Suc 0" num]
  by (auto simp: rounded_def pack_def split: if_splits)

lemma fadd_finite_le_max: "fadd x y = Fin t d \<Longrightarrow> d \<le> max_units"
proof (cases x; cases y)
  fix s m u n assume "x = Fin s m" "y = Fin u n" and "fadd x y = Fin t d"
  then show ?thesis
    by (auto split: if_splits dest: rounded_finite_le_max)
qed (auto split: if_splits)

lemma fdiv_finite:
  assumes "d \<le> max_units" and "2 ^ 149 \<le> m"
  shows "\<exists>r. fdiv (Fin s d) (Fin t m) = Fin (s \<noteq> t) r"
proof -
  have m0: "0 < m" using assms(2) by (metis less_le_trans zero_less_numeral zero_less_power)
  have "d * 2 ^ 149 \<le> max_units * m" using assms by (rule mult_le_mono)
  then have "round_units (d * 2 ^ 149) m \<le> max_units" using m0 by (intro round_units_le_max)
  also have "max_units < 2 ^ 277" by (simp add: max_units_def)
  finally show ?thesis using m0 by (simp add: rounded_def pack_def)
qed

lemma fdiv_Fin:
  "0 < n \<Longrightarrow> round_units (m * 2 ^ 149) n < 2 ^ 277 \<Longrightarrow>
   fdiv (Fin s m) (Fin t n) = Fin (s \<noteq> t) (round_units (m * 2 ^ 149) n)"
  by (simp add: rounded_def pack_def)

lemma fmul_Fin:
  "round_units (m * n) (2 ^ 149) < 2 ^ 277 \<Longrightarrow>
   fmul (Fin s m) (Fin t n) = Fin (s \<noteq> t) (round_units (m * n) (2 ^ 149))"
  by (simp add: rounded_def pack_def)

lemma fadd_one_below: 
  assumes "j < 2 ^ 24"
  shows "fadd (Fin False (j * 2 ^ 149)) one_f = Fin False (Suc j * 2 ^ 149)"
proof -
  have "Suc j \<le> 2 ^ 24" using assms by simp
  from int_float [OF this, of False]
  have "rounded False (Suc j * 2 ^ 149) 1 = Fin False (Suc j * 2 ^ 149)" .
  moreover have "j * 2 ^ 149 + 2 ^ 149 = Suc j * 2 ^ 149" by (simp only: mult_Suc add.commute)
  ultimately show ?thesis unfolding one_f_def fadd.simps by (simp only: refl if_True)
qed

lemma fadd_one_saturated:
  "fadd (Fin False (2 ^ 24 * 2 ^ 149)) one_f = Fin False (2 ^ 24 * 2 ^ 149)"
  by (simp add: eval_float)

lemma fneg_rounded: "fneg (rounded s num den) = rounded (\<not> s) num den"
  by (simp add: rounded_def pack_def)

lemma fsub_swap:
  "fsub a b = fneg (fsub b a) \<or> (fsub a b = Fin False 0 \<and> fsub b a = Fin False 0)"
  by (cases a; cases b) (auto simp: fsub_def fneg_rounded add.commute)

lemma fdiv_fneg: "fdiv (fneg x) y = fneg (fdiv x y)"
  by (cases x; cases y) (auto simp: fneg_rounded)

lemma fmul_fneg: "fmul x (fneg y) = fneg (fmul x y)"
  by (cases x; cases y) (auto simp: fneg_rounded)

lemma fmul_NaN_right [simp]: "fmul x NaN = NaN"
  by (cases x) simp_all

lemma feq_refl: "x \<noteq> NaN \<Longrightarrow> feq x x"
  by (cases x) simp_all

lemma fneg_NaN_iff: "fneg x = NaN \<longleftrightarrow> x = NaN"
  by (cases x) simp_all

lemma fdiv_zero_cases: "fdiv (Fin False 0) y = NaN \<or> (\<exists>s. fdiv (Fin False 0) y = Fin s 0)"
  by (cases y) (auto simp: rounded_def pack_def round_units_def rne_def)

lemma fmul_zero_cases: "fmul x (Fin s 0) = NaN \<or> (\<exists>t. fmul x (Fin s 0) = Fin t 0)"
  by (cases x) (auto simp: rounded_def pack_def round_units_def rne_def)

section \<open>Properties of the loop\<close>

lemma sint_succ: "i <s (n::int32) \<Longrightarrow> sint (i + 1) = sint i + 1"
proof -
  assume "i <s n"
  then have "sint i < sint n" by (simp add: word_sless_alt)
  moreover have "sint n < 2 ^ 31" using sint_lt [of n] by simp
  moreover have "- (2 ^ 31) \<le> sint i" using sint_ge [of i] by simp
  ultimately show ?thesis
    by (simp add: sint_word_ariths signed_take_bit_int_eq_self)
qed

text \<open>
  The loop started at index \<open>i\<close> with sum \<open>s\<close> adds the values at the sample points
  \<open>i, ..., n - 1\<close> to \<open>s\<close> from left to right, and calls the integrand at exactly these points.
\<close>

lemma loop_unfold:
  "0 \<le> sint i \<Longrightarrow>
   numericalIntegration_loop f a dx n k i s log =
     (foldl (\<lambda>s x. fadd s (f x k)) s (map (midpoint a dx) [nat (sint i)..<nat (sint n)]),
      log @ map (\<lambda>x. (x, k)) (map (midpoint a dx) [nat (sint i)..<nat (sint n)]))"
proof (induction f a dx n k i s log rule: numericalIntegration_loop.induct)
  case (1 f a dx n k i s log)
  show ?case
  proof (cases "i <s n")
    case True
    have lt: "sint i < sint n" using True by (simp add: word_sless_alt)
    have suc: "sint (i + 1) = sint i + 1" by (rule sint_succ [OF True])
    have nsuc: "nat (sint (i + 1)) = Suc (nat (sint i))" using suc "1.prems" by simp
    have upt: "[nat (sint i)..<nat (sint n)] = nat (sint i) # [Suc (nat (sint i))..<nat (sint n)]"
      using lt "1.prems" by (simp add: upt_conv_Cons)
    have mp: "fadd a (fmul (fadd (float_of_int i) half_f) dx) = midpoint a dx (nat (sint i))"
      using "1.prems" by (simp add: midpoint_def)
    have ih: "numericalIntegration_loop f a dx n k (i + 1)
                (fadd s (f (midpoint a dx (nat (sint i))) k))
                (log @ [(midpoint a dx (nat (sint i)), k)]) =
              (foldl (\<lambda>s x. fadd s (f x k)) (fadd s (f (midpoint a dx (nat (sint i))) k))
                 (map (midpoint a dx) [nat (sint (i + 1))..<nat (sint n)]),
               (log @ [(midpoint a dx (nat (sint i)), k)]) @
                 map (\<lambda>x. (x, k)) (map (midpoint a dx) [nat (sint (i + 1))..<nat (sint n)]))"
      using "1.IH" [OF True refl] suc "1.prems" unfolding mp by simp
    show ?thesis
      apply (subst numericalIntegration_loop.simps)
      apply (simp only: True if_True Let_def mp ih nsuc)
      apply (simp add: upt)
      done
  next
    case False
    then have "sint n \<le> sint i" by (simp add: word_sless_alt)
    then have e: "[nat (sint i)..<nat (sint n)] = []" by simp
    show ?thesis
      by (subst numericalIntegration_loop.simps)
         (simp only: False e if_False list.map foldl_Nil append_Nil2)
  qed
qed

lemma run_unfold:
  "numericalIntegration_run f a b n k =
     (spec_integral f a b n k, map (\<lambda>x. (x, k)) (spec_samples a b n))"
  by (simp add: numericalIntegration_run_def spec_integral_def spec_samples_def Let_def
        loop_unfold [of 0])

lemma run_nonpositive:
  assumes "sint n \<le> 0"
  shows "numericalIntegration_run f a b n k =
           (fmul zero_f (fdiv (fsub b a) (float_of_int n)), [])"
  using assms by (simp add: run_unfold spec_integral_def spec_samples_def)

lemma numericalIntegration_step_sum:
  "numericalIntegration f a b n k = fmul (sample_sum f a b n k) (step_size a b n)"
  by (simp add: numericalIntegration_def run_unfold spec_integral_def sample_sum_def step_size_def)

lemma foldl_ascending_sum:
  "foldl (\<lambda>s x. fadd s (f x k)) zero_f (map (midpoint a dx) [0..<m]) = ascending_sum f a dx k m"
  by (induction m) simp_all

lemma ascending_sum_cong:
  "(\<forall>j<m. f (midpoint a dx j) k = g (midpoint a dx j) k) \<Longrightarrow>
   ascending_sum f a dx k m = ascending_sum g a dx k m"
  by (induction m) simp_all

text \<open>
  With the constant integrand 1 the sum counts the samples up to \<open>2^24\<close> and stays there:
  \<open>2^24 + 1\<close> is not a \<open>float\<close> and rounds back to \<open>2^24\<close>.
\<close>

lemma unit_sum:
  "foldl (\<lambda>s x. fadd s (unit_integrand x k)) zero_f xs
     = Fin False (min (length xs) (2 ^ 24) * 2 ^ 149)"
proof (induction xs rule: rev_induct)
  case Nil
  then show ?case by (simp add: zero_f_def)
next
  case (snoc x xs)
  show ?case
  proof (cases "length xs < 2 ^ 24")
    case True
    then have "min (length xs) (2 ^ 24) = length xs"
      "min (length (xs @ [x])) (2 ^ 24) = Suc (length xs)" by simp_all
    with snoc fadd_one_below [OF True] show ?thesis
      by (simp add: unit_integrand_def del: power_numeral)
  next
    case False
    then have "min (length xs) (2 ^ 24) = 2 ^ 24"
      "min (length (xs @ [x])) (2 ^ 24) = 2 ^ 24" by simp_all
    with snoc fadd_one_saturated show ?thesis
      by (simp add: unit_integrand_def del: power_numeral)
  qed
qed

lemma unit_sample_sum:
  "sample_sum unit_integrand a b n k = Fin False (min (nat (sint n)) (2 ^ 24) * 2 ^ 149)"
  unfolding sample_sum_def unit_sum by (simp add: spec_samples_def del: power_numeral)

section \<open>The integrator: algorithm and reproducibility\<close>

text \<open>
  Claim C1.  For every integrand, bounds, intensity and sample count \<open>n \<ge> 1\<close>,
  \<open>numericalIntegration\<close> returns what the midpoint rule of the specification returns: with
  \<open>dx = (b - a) / n\<close>, the sum of \<open>f(x_i, k)\<close> over \<open>x_i = a + (i + 0.5) * dx\<close>, accumulated for
  \<open>i = 0, ..., n - 1\<close> in ascending order from 0, times \<open>dx\<close>; and the calls of the integrand are
  exactly the calls \<open>f(x_0, k), ..., f(x_(n-1), k)\<close>, in this order, each with the intensity
  \<open>k\<close> that was passed in.
\<close>

theorem numericalIntegration_is_midpoint_rule:
  assumes "1 \<le>s n"
  shows "numericalIntegration f a b n k = spec_integral f a b n k
       \<and> snd (numericalIntegration_run f a b n k) = map (\<lambda>x. (x, k)) (spec_samples a b n)"
  by (simp add: numericalIntegration_def run_unfold)

theorem numericalIntegration_is_midpoint_rule_witness:
  "1 \<le>s (3 :: int32)
   \<and> numericalIntegration (\<lambda>x k. x) zero_f one_f 3 7 = spec_integral (\<lambda>x k. x) zero_f one_f 3 7
   \<and> snd (numericalIntegration_run (\<lambda>x k. x) zero_f one_f 3 7)
       = map (\<lambda>x. (x, 7)) (spec_samples zero_f one_f 3)
   \<and> spec_samples zero_f one_f 3
       = [Fin False (11184811 * 2 ^ 123), Fin False (2 ^ 148), Fin False (6990507 * 2 ^ 126)]
   \<and> spec_integral (\<lambda>x k. x) zero_f one_f 3 7 = Fin False (2 ^ 148)"
proof -
  have h: "1 \<le>s (3 :: int32)" by (simp add: word_sle_eq)
  have s: "spec_samples zero_f one_f 3
       = [Fin False (11184811 * 2 ^ 123), Fin False (2 ^ 148), Fin False (6990507 * 2 ^ 126)]"
    by (simp add: spec_samples_def midpoint_def eval_float upt_rec [of _ "numeral v" for v])
  have i: "spec_integral (\<lambda>x k. x) zero_f one_f 3 7 = Fin False (2 ^ 148)"
    unfolding spec_integral_def s by (simp add: eval_float)
  show ?thesis
    using h s i numericalIntegration_is_midpoint_rule [OF h, of "\<lambda>x k. x" zero_f one_f 7]
    by simp
qed

text \<open>
  Claim C7.  The result is a function of the inputs and of the values the integrand returns
  at the \<open>n\<close> sample points: two evaluations with the same bounds, count and intensity, in
  which the integrand returns the same values at these points, make the same calls and return
  the same \<open>float\<close>.  The value is the sum accumulated in ascending index order
  \<open>i = 0, ..., n - 1\<close>, times \<open>dx\<close>.
\<close>

theorem numericalIntegration_reproducible:
  assumes "\<forall>j < nat (sint n). f (midpoint a (fdiv (fsub b a) (float_of_int n)) j) k
                              = g (midpoint a (fdiv (fsub b a) (float_of_int n)) j) k"
  shows "numericalIntegration_run f a b n k = numericalIntegration_run g a b n k
       \<and> numericalIntegration f a b n k
           = fmul (ascending_sum f a (fdiv (fsub b a) (float_of_int n)) k (nat (sint n)))
                  (fdiv (fsub b a) (float_of_int n))"
  using ascending_sum_cong [where f = f and g = g and m = "nat (sint n)" and k = k and a = a
      and dx = "fdiv (fsub b a) (float_of_int n)"] assms
  by (simp add: numericalIntegration_def run_unfold spec_integral_def spec_samples_def
        foldl_ascending_sum)

text \<open>
  The example: on \<open>[0, 1]\<close> with 3 samples, the identity and \<open>x + 0.0f\<close> differ as functions
  (at \<open>-0.0f\<close>) and agree at the three sample points.
\<close>

lemma step_0_1_3: "fdiv (fsub one_f zero_f) (float_of_int 3) = Fin False (11184811 * 2 ^ 124)"
  by (simp add: eval_float)

lemma below_3: "j < nat (sint (3::int32)) \<longleftrightarrow> j = 0 \<or> j = 1 \<or> j = 2"
  by auto

lemma nat_sint_3: "nat (sint (3::int32)) = Suc (Suc (Suc 0))"
  by simp

lemma midpoints_0_1_3:
  "midpoint zero_f (Fin False (11184811 * 2 ^ 124)) 0 = Fin False (11184811 * 2 ^ 123)"
  "midpoint zero_f (Fin False (11184811 * 2 ^ 124)) (Suc 0) = Fin False (2 ^ 148)"
  "midpoint zero_f (Fin False (11184811 * 2 ^ 124)) (Suc (Suc 0)) = Fin False (6990507 * 2 ^ 126)"
  by (simp_all add: midpoint_def eval_float)

lemma agree_0_1_3:
  "\<forall>j < nat (sint (3::int32)).
       (\<lambda>x k. x) (midpoint zero_f (fdiv (fsub one_f zero_f) (float_of_int 3)) j) (0::int32)
     = (\<lambda>x k. fadd x zero_f)
         (midpoint zero_f (fdiv (fsub one_f zero_f) (float_of_int 3)) j) (0::int32)"
  unfolding below_3 step_0_1_3 by (simp add: midpoint_def eval_float)

lemma ascending_sum_0_1_3:
  "fmul (ascending_sum (\<lambda>x k. x) zero_f (fdiv (fsub one_f zero_f) (float_of_int 3)) 0
           (nat (sint (3::int32))))
        (fdiv (fsub one_f zero_f) (float_of_int 3)) = Fin False (2 ^ 148)"
  unfolding step_0_1_3 nat_sint_3 ascending_sum.simps midpoints_0_1_3 by (simp add: eval_float)

theorem numericalIntegration_reproducible_witness:
  "midpoint zero_f (fdiv (fsub one_f zero_f) (float_of_int 3)) 0
     = fadd (midpoint zero_f (fdiv (fsub one_f zero_f) (float_of_int 3)) 0) zero_f
   \<and> midpoint zero_f (fdiv (fsub one_f zero_f) (float_of_int 3)) 1
     = fadd (midpoint zero_f (fdiv (fsub one_f zero_f) (float_of_int 3)) 1) zero_f
   \<and> midpoint zero_f (fdiv (fsub one_f zero_f) (float_of_int 3)) 2
     = fadd (midpoint zero_f (fdiv (fsub one_f zero_f) (float_of_int 3)) 2) zero_f
   \<and> numericalIntegration_run (\<lambda>x k. x) zero_f one_f 3 0
       = numericalIntegration_run (\<lambda>x k. fadd x zero_f) zero_f one_f 3 0
   \<and> numericalIntegration (\<lambda>x k. x) zero_f one_f 3 0 = Fin False (2 ^ 148)"
proof -
  note r = numericalIntegration_reproducible [where n = 3 and f = "\<lambda>x k. x" and a = zero_f
      and b = one_f and k = 0 and g = "\<lambda>x k. fadd x zero_f", OF agree_0_1_3]
  from r have "numericalIntegration (\<lambda>x k. x) zero_f one_f 3 0 = Fin False (2 ^ 148)"
    unfolding ascending_sum_0_1_3 by (rule conjunct2)
  moreover from r have "numericalIntegration_run (\<lambda>x k. x) zero_f one_f 3 0
       = numericalIntegration_run (\<lambda>x k. fadd x zero_f) zero_f one_f 3 0"
    by (rule conjunct1)
  moreover from agree_0_1_3
  have "midpoint zero_f (fdiv (fsub one_f zero_f) (float_of_int 3)) 0
         = fadd (midpoint zero_f (fdiv (fsub one_f zero_f) (float_of_int 3)) 0) zero_f"
    "midpoint zero_f (fdiv (fsub one_f zero_f) (float_of_int 3)) 1
         = fadd (midpoint zero_f (fdiv (fsub one_f zero_f) (float_of_int 3)) 1) zero_f"
    "midpoint zero_f (fdiv (fsub one_f zero_f) (float_of_int 3)) 2
         = fadd (midpoint zero_f (fdiv (fsub one_f zero_f) (float_of_int 3)) 2) zero_f"
    unfolding below_3 by simp_all
  ultimately show ?thesis by blast
qed

section \<open>The integrator: sample counts\<close>

text \<open>
  Claim C8.  The routine has no guard and no error value: it is a total function of its
  arguments.  For \<open>n \<ge> 1\<close> the divisor \<open>float(n)\<close> of \<open>dx = (b - a) / n\<close> is a positive finite
  number, so not zero, and the loop ends after exactly \<open>n\<close> calls of the integrand.  For
  \<open>n \<le> 0\<close> nothing stops the routine either: it makes no call, divides by \<open>float(n)\<close> all the
  same and returns \<open>0 * dx\<close>.
\<close>

theorem numericalIntegration_no_guard:
  "(1 \<le>s n \<longrightarrow>
      (\<exists>m. float_of_int n = Fin False m \<and> 0 < m)
      \<and> length (snd (numericalIntegration_run f a b n k)) = nat (sint n))
   \<and> (\<not> 1 \<le>s n \<longrightarrow>
      numericalIntegration_run f a b n k =
        (fmul zero_f (fdiv (fsub b a) (float_of_int n)), []))"
proof (intro conjI impI)
  assume "1 \<le>s n"
  then have pos: "0 < sint n" by (simp add: word_sle_eq)
  then have "sint n \<noteq> 0" by simp
  from float_of_int_nonzero [OF this] pos
  obtain m where "float_of_int n = Fin False m" "2 ^ 149 \<le> m" by auto
  moreover from this have "0 < m" by (metis less_le_trans zero_less_numeral zero_less_power)
  ultimately show "\<exists>m. float_of_int n = Fin False m \<and> 0 < m" by blast
  show "length (snd (numericalIntegration_run f a b n k)) = nat (sint n)"
    by (simp add: run_unfold spec_samples_def)
next
  assume "\<not> 1 \<le>s n"
  then have "sint n \<le> 0" by (simp add: word_sle_eq)
  then show "numericalIntegration_run f a b n k =
        (fmul zero_f (fdiv (fsub b a) (float_of_int n)), [])"
    by (rule run_nonpositive)
qed

theorem numericalIntegration_no_guard_witness:
  "1 \<le>s (3 :: int32)
   \<and> float_of_int 3 = Fin False (3 * 2 ^ 149)
   \<and> length (snd (numericalIntegration_run id_integrand zero_f one_f 3 0)) = 3
   \<and> \<not> 1 \<le>s (0 :: int32)
   \<and> numericalIntegration_run id_integrand zero_f one_f 0 0 = (NaN, [])"
proof -
  have h3: "1 \<le>s (3 :: int32)" and h0: "\<not> 1 \<le>s (0 :: int32)" by (simp_all add: word_sle_eq)
  have c: "float_of_int 3 = Fin False (3 * 2 ^ 149)" by (simp add: eval_float)
  have v: "fmul zero_f (fdiv (fsub one_f zero_f) (float_of_int 0)) = NaN"
    by (simp add: eval_float)
  from h3 numericalIntegration_no_guard [of 3 id_integrand zero_f one_f 0]
  have "length (snd (numericalIntegration_run id_integrand zero_f one_f 3 0)) = nat (sint (3::int32))"
    by blast
  then have l: "length (snd (numericalIntegration_run id_integrand zero_f one_f 3 0)) = 3" by simp
  from h0 numericalIntegration_no_guard [of 0 id_integrand zero_f one_f 0]
  have "numericalIntegration_run id_integrand zero_f one_f 0 0 =
        (fmul zero_f (fdiv (fsub one_f zero_f) (float_of_int 0)), [])"
    by blast
  then have z: "numericalIntegration_run id_integrand zero_f one_f 0 0 = (NaN, [])"
    unfolding v .
  from h3 c l h0 z show ?thesis by blast
qed

text \<open>
  Claim C10, amended.  For every negative sample count the loop body is never executed, the
  integrand is never called, and the routine returns \<open>0 * ((b - a) / n)\<close> without a fault.
  This value is a zero, of the sign opposite to that of \<open>b - a\<close>, whenever the difference
  \<open>b - a\<close> is finite in single precision; it is NaN when \<open>b - a\<close> is an infinity or NaN.
\<close>

theorem numericalIntegration_negative_count:
  assumes "sint n < 0"
  shows "numericalIntegration_run f a b n k =
           (fmul zero_f (fdiv (fsub b a) (float_of_int n)), [])
       \<and> (\<forall>s d. fsub b a = Fin s d \<longrightarrow> numericalIntegration f a b n k = Fin (\<not> s) 0)
       \<and> (\<not> is_finite (fsub b a) \<longrightarrow> numericalIntegration f a b n k = NaN)"
proof -
  from assms have le: "sint n \<le> 0" and ne: "sint n \<noteq> 0" by simp_all
  note run = run_nonpositive [OF le, of f a b k]
  from float_of_int_nonzero [OF ne] assms
  obtain m where m: "float_of_int n = Fin True m" "2 ^ 149 \<le> m" by auto
  have fin: "numericalIntegration f a b n k = Fin (\<not> s) 0" if d: "fsub b a = Fin s d" for s d
  proof -
    have "d \<le> max_units" using d unfolding fsub_def by (rule fadd_finite_le_max)
    from fdiv_finite [OF this m(2), of s True]
    obtain r where "fdiv (Fin s d) (Fin True m) = Fin (\<not> s) r" by auto
    then show ?thesis
      by (simp add: numericalIntegration_def run d m zero_f_def rounded_def pack_def
            round_units_def rne_def)
  qed
  have inf: "numericalIntegration f a b n k = NaN" if "\<not> is_finite (fsub b a)"
    using that by (cases "fsub b a") (simp_all add: numericalIntegration_def run m zero_f_def)
  from run fin inf show ?thesis by blast
qed

theorem numericalIntegration_negative_count_witness:
  "sint (- 2 :: int32) < 0
   \<and> fsub one_f zero_f = Fin False (2 ^ 149)
   \<and> numericalIntegration_run id_integrand zero_f one_f (- 2) 0 = (Fin True 0, [])
   \<and> numericalIntegration id_integrand zero_f one_f (- 2) 0 = Fin (\<not> False) 0"
proof -
  have h: "sint (- 2 :: int32) < 0" by simp
  have d: "fsub one_f zero_f = Fin False (2 ^ 149)" by (simp add: eval_float)
  have v: "fmul zero_f (fdiv (fsub one_f zero_f) (float_of_int (- 2))) = Fin True 0"
    by (simp add: eval_float)
  note t = numericalIntegration_negative_count [OF h, of id_integrand zero_f one_f 0]
  from t have "numericalIntegration_run id_integrand zero_f one_f (- 2) 0 = (Fin True 0, [])"
    unfolding v by (rule conjunct1)
  moreover from t d have "numericalIntegration id_integrand zero_f one_f (- 2) 0 = Fin (\<not> False) 0"
    by blast
  ultimately show ?thesis using h d by blast
qed

text \<open>
  The claim as it stands promises a zero for all bounds.  With the finite bounds
  \<open>a = -2^127\<close> and \<open>b = 2^127\<close> the difference overflows to \<open>+inf\<close>, and with \<open>n = -1\<close> the
  result \<open>0 * -inf\<close> is NaN.
\<close>

theorem numericalIntegration_negative_count_counterexample:
  "sint (- 1 :: int32) < 0
   \<and> numericalIntegration id_integrand (Fin True (2 ^ 276)) (Fin False (2 ^ 276)) (- 1) 0 = NaN"
  by (simp add: numericalIntegration_def run_nonpositive eval_float)

section \<open>The integrator: numerical properties\<close>

text \<open>
  Claim C5, amended.  Swapping the bounds negates the step: \<open>(a - b) / n == -((b - a) / n)\<close>
  unless the step is NaN.  Each result is the sum of its own samples times its own step;
  so, when the two runs accumulate the same sum and the result is not NaN, swapping the
  bounds negates the result.  The two runs sample at points rounded differently and add
  them in the opposite order, so their sums can differ; nothing is stated for that case.
\<close>

theorem numericalIntegration_swap_bounds:
  "(step_size a b n \<noteq> NaN \<longrightarrow> feq (step_size b a n) (fneg (step_size a b n)))
   \<and> numericalIntegration f a b n k = fmul (sample_sum f a b n k) (step_size a b n)
   \<and> numericalIntegration f b a n k = fmul (sample_sum f b a n k) (step_size b a n)
   \<and> (sample_sum f b a n k = sample_sum f a b n k \<longrightarrow> numericalIntegration f a b n k \<noteq> NaN \<longrightarrow>
        feq (numericalIntegration f b a n k) (fneg (numericalIntegration f a b n k)))"
proof -
  consider (neg) "fsub a b = fneg (fsub b a)"
    | (zero) "fsub a b = Fin False 0" "fsub b a = Fin False 0"
    using fsub_swap by blast
  then have
    "(step_size a b n \<noteq> NaN \<longrightarrow> feq (step_size b a n) (fneg (step_size a b n)))
     \<and> (\<forall>S. fmul S (step_size a b n) \<noteq> NaN \<longrightarrow>
            feq (fmul S (step_size b a n)) (fneg (fmul S (step_size a b n))))"
  proof cases
    case neg
    then have "step_size b a n = fneg (step_size a b n)"
      by (simp add: step_size_def fdiv_fneg)
    then show ?thesis by (simp add: fmul_fneg feq_refl fneg_NaN_iff)
  next
    case zero
    then have e: "step_size b a n = step_size a b n" 
      and c: "step_size a b n = NaN \<or> (\<exists>s. step_size a b n = Fin s 0)"
      using fdiv_zero_cases [of "float_of_int n"] by (simp_all add: step_size_def)
    show ?thesis
    proof (intro conjI allI impI)
      assume "step_size a b n \<noteq> NaN"
      with c show "feq (step_size b a n) (fneg (step_size a b n))" unfolding e by auto
    next
      fix S assume n: "fmul S (step_size a b n) \<noteq> NaN"
      with c obtain s where s: "step_size a b n = Fin s 0" by auto
      with n fmul_zero_cases [of S s] show "feq (fmul S (step_size b a n)) (fneg (fmul S (step_size a b n)))"
        unfolding e by auto
    qed
  qed
  then show ?thesis by (simp add: numericalIntegration_step_sum)
qed

lemma swap_example_steps:
  "step_size zero_f one_f 2 = Fin False (2 ^ 148)" "step_size one_f zero_f 2 = Fin True (2 ^ 148)"
  by (simp_all add: step_size_def eval_float)

lemma swap_example_sums:
  "sample_sum unit_integrand zero_f one_f 2 0 = Fin False (2 ^ 150)"
  "sample_sum unit_integrand one_f zero_f 2 0 = Fin False (2 ^ 150)"
  by (simp_all add: sample_sum_def spec_samples_def unit_integrand_def eval_float Let_def
        upt_rec [of _ "numeral v" for v])

theorem numericalIntegration_swap_bounds_witness:
  "step_size zero_f one_f 2 \<noteq> NaN
   \<and> feq (step_size one_f zero_f 2) (fneg (step_size zero_f one_f 2))
   \<and> sample_sum unit_integrand one_f zero_f 2 0 = sample_sum unit_integrand zero_f one_f 2 0
   \<and> numericalIntegration unit_integrand zero_f one_f 2 0 = Fin False (2 ^ 149)
   \<and> numericalIntegration unit_integrand zero_f one_f 2 0 \<noteq> NaN
   \<and> feq (numericalIntegration unit_integrand one_f zero_f 2 0)
         (fneg (numericalIntegration unit_integrand zero_f one_f 2 0))"
proof -
  note t = numericalIntegration_swap_bounds [of zero_f one_f 2 unit_integrand 0]
  have s: "step_size zero_f one_f 2 \<noteq> NaN" by (simp add: swap_example_steps)
  have e: "sample_sum unit_integrand one_f zero_f 2 0 = sample_sum unit_integrand zero_f one_f 2 0"
    by (simp only: swap_example_sums)
  from t have "numericalIntegration unit_integrand zero_f one_f 2 0
      = fmul (sample_sum unit_integrand zero_f one_f 2 0) (step_size zero_f one_f 2)"
    by blast
  then have v: "numericalIntegration unit_integrand zero_f one_f 2 0 = Fin False (2 ^ 149)"
    unfolding swap_example_sums swap_example_steps by (simp add: eval_float)
  then have n: "numericalIntegration unit_integrand zero_f one_f 2 0 \<noteq> NaN" by simp
  from t s have "feq (step_size one_f zero_f 2) (fneg (step_size zero_f one_f 2))" by blast
  moreover from t e n have "feq (numericalIntegration unit_integrand one_f zero_f 2 0)
         (fneg (numericalIntegration unit_integrand zero_f one_f 2 0))" by blast
  ultimately show ?thesis using s e v n by blast
qed

text \<open>
  The claim as it stands promises exact negation for every integrand.  With \<open>f(x, k) = x\<close>
  on \<open>[0, 1]\<close> and 3 samples the result is \<open>0.5\<close>, and with the bounds swapped it is
  \<open>-16777215 * 2^-25\<close>, about \<open>-0.49999997\<close>.
\<close>

lemma swap_counterexample_values:
  "numericalIntegration id_integrand zero_f one_f 3 0 = Fin False (2 ^ 148)"
  "numericalIntegration id_integrand one_f zero_f 3 0 = Fin True (16777215 * 2 ^ 124)"
  by (simp_all add: eval_loop eval_float id_integrand_def)

theorem numericalIntegration_swap_bounds_counterexample:
  "1 \<le>s (3 :: int32)
   \<and> \<not> feq (numericalIntegration id_integrand zero_f one_f 3 0)
           (fneg (numericalIntegration id_integrand one_f zero_f 3 0))"
  unfolding swap_counterexample_values by (simp add: word_sle_eq)

text \<open>
  Claim C6, amended.  For the constant integrand 1 and every sample count \<open>n \<ge> 1\<close> the
  accumulated sum is exactly \<open>min(n, 2^24)\<close>, and the result is this sum times the step.
  For \<open>n \<le> 2^24\<close> the sum is therefore exactly \<open>n\<close>, and for all bounds whose
  single-precision difference \<open>d = b - a\<close> is finite the result is finite, has the sign of
  \<open>d\<close>, and differs from \<open>d\<close> by at most \<open>3 * 2^-24 * |d| + n * 2^-149\<close>; by at most
  \<open>2^-22 * |d|\<close> when \<open>|d| \<ge> n * 2^-126\<close>; and it is exactly \<open>d\<close> when \<open>d\<close> is zero.  The one
  exception is a product that overflows to the infinity of the sign of \<open>d\<close>, which happens
  only when \<open>|d|\<close> exceeds \<open>(2^24 - 2) * 2^104\<close>, that is, for the largest finite \<open>float\<close>.
  For \<open>n > 2^24\<close> the sum stays at \<open>2^24\<close>, and the result is \<open>2^24 * ((b - a) / n)\<close>.
  (Magnitudes are in units of \<open>2^-149\<close>.)
\<close>

theorem constant_integrand_result:
  assumes n1: "1 \<le>s n"
  shows "sample_sum unit_integrand a b n k = Fin False (min (nat (sint n)) (2 ^ 24) * 2 ^ 149)
       \<and> numericalIntegration unit_integrand a b n k
           = fmul (sample_sum unit_integrand a b n k) (step_size a b n)
       \<and> (sint n \<le> 2 ^ 24 \<longrightarrow>
            sample_sum unit_integrand a b n k = float_of_int n
            \<and> (fsub b a = Fin s d \<longrightarrow>
                 (numericalIntegration unit_integrand a b n k = Inf s
                    \<and> (2 ^ 24 - 2) * 2 ^ 253 < d)
                 \<or> (\<exists>r. numericalIntegration unit_integrand a b n k = Fin s r
                        \<and> 2 ^ 24 * \<bar>int r - int d\<bar> \<le> 3 * int d + 2 ^ 24 * int (nat (sint n))
                        \<and> (2 ^ 23 * nat (sint n) \<le> d \<longrightarrow> 2 ^ 22 * \<bar>int r - int d\<bar> \<le> int d)
                        \<and> (d = 0 \<longrightarrow> r = 0))))"
proof (intro conjI impI)
  show "sample_sum unit_integrand a b n k = Fin False (min (nat (sint n)) (2 ^ 24) * 2 ^ 149)"
    by (rule unit_sample_sum)
  show "numericalIntegration unit_integrand a b n k
           = fmul (sample_sum unit_integrand a b n k) (step_size a b n)"
    by (rule numericalIntegration_step_sum)
next
  assume n24: "sint n \<le> 2 ^ 24"
  define N where "N = nat (sint n)"
  define P :: nat where "P = 2 ^ 149"
  have pos: "0 < sint n" using n1 by (simp add: word_sle_eq)
  have N24: "N \<le> 2 ^ 24" unfolding N_def using pos n24 by simp
  have "float_of_int n = rounded False (N * 2 ^ 149) 1"
    unfolding float_of_int_def N_def using pos by simp
  then have fn: "float_of_int n = Fin False (N * P)"
    unfolding P_def using int_float [OF N24] by simp
  have "min N (2 ^ 24) = N" using N24 by simp
  then have S: "sample_sum unit_integrand a b n k = Fin False (N * P)"
    unfolding unit_sample_sum N_def [symmetric] P_def by simp
  with fn show "sample_sum unit_integrand a b n k = float_of_int n" by simp
next
  assume n24: "sint n \<le> 2 ^ 24" and d: "fsub b a = Fin s d"
  define N where "N = nat (sint n)"
  define P :: nat where "P = 2 ^ 149"
  have P0: "0 < P" unfolding P_def by simp
  have pos: "0 < sint n" using n1 by (simp add: word_sle_eq)
  have N1: "1 \<le> N" and N24: "N \<le> 2 ^ 24" unfolding N_def using pos n24 by simp_all
  have NP0: "0 < N * P" using N1 P0 by simp
  have "float_of_int n = rounded False (N * 2 ^ 149) 1"
    unfolding float_of_int_def N_def using pos by simp
  then have fn: "float_of_int n = Fin False (N * P)"
    unfolding P_def using int_float [OF N24] by simp
  have "min N (2 ^ 24) = N" using N24 by simp
  then have S: "sample_sum unit_integrand a b n k = Fin False (N * P)"
    unfolding unit_sample_sum N_def [symmetric] P_def by simp
  have mx: "max_units < 2 ^ 277" by (simp add: max_units_def)
  define R where "R = round_units (d * P) (N * P)"
  have dmax: "d \<le> max_units" using d unfolding fsub_def by (rule fadd_finite_le_max)
  then have "d \<le> max_units * N" using N1
    by (metis le_trans mult.right_neutral mult_le_mono2)
  then have "d * P \<le> max_units * N * P" by (rule mult_le_mono1)
  then have "d * P \<le> max_units * (N * P)" by (simp only: ac_simps)
  then have "R \<le> max_units" unfolding R_def using NP0 by (intro round_units_le_max)
  with mx have "R < 2 ^ 277" by simp
  then have "fdiv (Fin s d) (Fin False (N * P)) = Fin (s \<noteq> False) R"
    using NP0 unfolding R_def P_def by (intro fdiv_Fin)
  then have dx: "step_size a b n = Fin s R"
    unfolding step_size_def d fn by simp
  have "2 ^ 24 * \<bar>int (R * (N * P)) - int (d * P)\<bar> \<le> int (d * P) + 2 ^ 23 * int (N * P)"
    unfolding R_def using NP0 by (rule round_units_abs_err)
  with P0 have err1: "2 ^ 24 * \<bar>int (R * N) - int d\<bar> \<le> int d + 2 ^ 23 * int N"
    by (rule scale_err_add)
  define r where "r = round_units (R * N * P) P"
  have comm: "N * 2 ^ 149 * R = R * N * 2 ^ 149" by (simp only: ac_simps)
  have "fmul (Fin False (N * P)) (Fin s R) = pack s r"
    unfolding r_def P_def fmul.simps rounded_def comm by simp
  then have res: "numericalIntegration unit_integrand a b n k = pack s r"
    unfolding numericalIntegration_step_sum S dx .
  have err2: "2 ^ 24 * \<bar>int r - int (R * N)\<bar> \<le> int (R * N)"
    unfolding r_def using P0 by (rule round_units_scaled_int)
  show "(numericalIntegration unit_integrand a b n k = Inf s \<and> (2 ^ 24 - 2) * 2 ^ 253 < d)
      \<or> (\<exists>r. numericalIntegration unit_integrand a b n k = Fin s r
             \<and> 2 ^ 24 * \<bar>int r - int d\<bar> \<le> 3 * int d + 2 ^ 24 * int (nat (sint n))
             \<and> (2 ^ 23 * nat (sint n) \<le> d \<longrightarrow> 2 ^ 22 * \<bar>int r - int d\<bar> \<le> int d)
             \<and> (d = 0 \<longrightarrow> r = 0))"
  proof (cases "r < 2 ^ 277")
    case True
    then have fin: "numericalIntegration unit_integrand a b n k = Fin s r"
      unfolding res by (simp add: pack_def)
    have "(0::int) \<le> int N" by simp
    with err1 err2 have tot: "2 ^ 24 * \<bar>int r - int d\<bar> \<le> 3 * int d + 2 ^ 24 * int N"
      by (rule total_err)
    have rel: "2 ^ 22 * \<bar>int r - int d\<bar> \<le> int d" if lo: "2 ^ 23 * N \<le> d"
    proof -
      have "2 ^ 23 * N * P \<le> d * P" using lo by (rule mult_le_mono1)
      then have normal1: "2 ^ 23 * (N * P) \<le> d * P" by (simp only: ac_simps)
      have "2 ^ 24 * \<bar>int (R * (N * P)) - int (d * P)\<bar> \<le> int (d * P)"
        unfolding R_def using NP0 normal1 by (rule round_units_rel_err)
      then have "2 ^ 24 * \<bar>int (R * N * P) - int (d * P)\<bar> \<le> int (d * P)"
        by (simp only: ac_simps)
      with P0 have "2 ^ 24 * \<bar>int (R * N) - int d\<bar> \<le> int d" by (rule scale_err)
      then show ?thesis using err2 by (rule final_aux)
    qed
    have zero: "r = 0" if "d = 0"
    proof -
      have "R = 0" unfolding R_def using that NP0 by (simp add: round_units_zero)
      then show ?thesis unfolding r_def using P0 by (simp add: round_units_zero)
    qed
    from fin tot rel zero show ?thesis unfolding N_def by blast
  next
    case False
    then have inf: "numericalIntegration unit_integrand a b n k = Inf s"
      unfolding res by (simp add: pack_def)
    have "(2 ^ 24 - 2) * 2 ^ 253 < d"
    proof (rule ccontr)
      assume "\<not> (2 ^ 24 - 2) * 2 ^ 253 < d"
      then have "d \<le> (2 ^ 24 - 2) * 2 ^ 253" by simp
      then have "int d \<le> int ((2 ^ 24 - 2) * 2 ^ 253)" by (simp only: of_nat_le_iff)
      then have D: "int d \<le> (2 ^ 24 - 2) * 2 ^ 253" by simp
      have "int N \<le> 2 ^ 24" using N24 by (metis of_nat_le_iff of_nat_numeral of_nat_power)
      with err1 D have "int (R * N) \<le> (2 ^ 24 - 1) * 2 ^ 253" by (rule no_overflow_aux)
      then have "int (R * N) \<le> int max_units" unfolding max_units_def by simp
      then have "R * N \<le> max_units" by (simp only: of_nat_le_iff)
      then have "R * N * P \<le> max_units * P" by (rule mult_le_mono1)
      then have "r \<le> max_units" unfolding r_def using P0 by (intro round_units_le_max)
      with mx False show False by simp
    qed
    with inf show ?thesis by blast
  qed
qed

theorem constant_integrand_result_witness:
  "1 \<le>s (3 :: int32) \<and> sint (3 :: int32) \<le> 2 ^ 24
   \<and> sample_sum unit_integrand zero_f one_f 3 0 = float_of_int 3
   \<and> fsub one_f zero_f = Fin False (2 ^ 149)
   \<and> 2 ^ 23 * nat (sint (3 :: int32)) \<le> 2 ^ 149
   \<and> (\<exists>r. numericalIntegration unit_integrand zero_f one_f 3 0 = Fin False r
          \<and> 2 ^ 22 * \<bar>int r - int (2 ^ 149)\<bar> \<le> int (2 ^ 149))
   \<and> fsub one_f one_f = Fin False 0
   \<and> numericalIntegration unit_integrand one_f one_f 3 0 = Fin False 0
   \<and> 1 \<le>s (2 :: int32) \<and> sint (2 :: int32) \<le> 2 ^ 24
   \<and> fsub (Fin False (3 * 2 ^ 275)) zero_f = Fin False (3 * 2 ^ 275)
   \<and> 2 ^ 23 * nat (sint (2 :: int32)) \<le> 3 * 2 ^ 275
   \<and> (\<exists>r. numericalIntegration unit_integrand zero_f (Fin False (3 * 2 ^ 275)) 2 0 = Fin False r
          \<and> 2 ^ 22 * \<bar>int r - int (3 * 2 ^ 275)\<bar> \<le> int (3 * 2 ^ 275))
   \<and> 1 \<le>s (33554432 :: int32)
   \<and> sample_sum unit_integrand zero_f one_f 33554432 0 = Fin False (2 ^ 24 * 2 ^ 149)"
proof -
  have h3: "1 \<le>s (3 :: int32)" and h2: "1 \<le>s (2 :: int32)" and hs: "1 \<le>s (33554432 :: int32)"
    by (simp_all add: word_sle_eq)
  have b3: "sint (3 :: int32) \<le> 2 ^ 24" and b2: "sint (2 :: int32) \<le> 2 ^ 24" by simp_all
  have d1: "fsub one_f zero_f = Fin False (2 ^ 149)"
    and d0: "fsub one_f one_f = Fin False 0"
    and d2: "fsub (Fin False (3 * 2 ^ 275)) zero_f = Fin False (3 * 2 ^ 275)"
    by (simp_all add: eval_float)
  have l1: "2 ^ 23 * nat (sint (3 :: int32)) \<le> 2 ^ 149"
    and l2: "2 ^ 23 * nat (sint (2 :: int32)) \<le> 3 * 2 ^ 275" by simp_all
  have o1: "\<not> (2 ^ 24 - 2) * 2 ^ 253 < (2 :: nat) ^ 149"
    and o0: "\<not> (2 ^ 24 - 2) * 2 ^ 253 < (0 :: nat)"
    and o2: "\<not> (2 ^ 24 - 2) * 2 ^ 253 < (3 :: nat) * 2 ^ 275" by simp_all
  note t1 = constant_integrand_result [OF h3, where a = zero_f and b = one_f and k = 0
      and s = False and d = "2 ^ 149"]
  note t0 = constant_integrand_result [OF h3, where a = one_f and b = one_f and k = 0
      and s = False and d = 0]
  note t2 = constant_integrand_result [OF h2, where a = zero_f and b = "Fin False (3 * 2 ^ 275)"
      and k = 0 and s = False and d = "3 * 2 ^ 275"]
  note ts = constant_integrand_result [OF hs, where a = zero_f and b = one_f and k = 0
      and s = False and d = 0]
  from t1 b3 have s1: "sample_sum unit_integrand zero_f one_f 3 0 = float_of_int 3" by blast
  from t1 b3 d1 l1 o1
  have r1: "\<exists>r. numericalIntegration unit_integrand zero_f one_f 3 0 = Fin False r
          \<and> 2 ^ 22 * \<bar>int r - int (2 ^ 149)\<bar> \<le> int (2 ^ 149)" by blast
  from t0 b3 d0 o0
  have r0: "numericalIntegration unit_integrand one_f one_f 3 0 = Fin False 0" by blast
  from t2 b2 d2 l2 o2
  have r2: "\<exists>r. numericalIntegration unit_integrand zero_f (Fin False (3 * 2 ^ 275)) 2 0 = Fin False r
          \<and> 2 ^ 22 * \<bar>int r - int (3 * 2 ^ 275)\<bar> \<le> int (3 * 2 ^ 275)" by blast
  from ts have "sample_sum unit_integrand zero_f one_f 33554432 0
      = Fin False (min (nat (sint (33554432 :: int32))) (2 ^ 24) * 2 ^ 149)" by blast
  then have ss: "sample_sum unit_integrand zero_f one_f 33554432 0 = Fin False (2 ^ 24 * 2 ^ 149)"
    by simp
  from h3 b3 s1 d1 l1 r1 d0 r0 h2 b2 d2 l2 r2 hs ss show ?thesis by blast
qed

text \<open>
  The claim as it stands covers every \<open>n \<ge> 1\<close> and all bounds.  On \<open>[0, 1]\<close> with
  \<open>n = 2^25\<close> samples the sum stops at \<open>2^24\<close> and the result is \<open>0.5\<close>, half of \<open>b - a\<close>.
  With \<open>b - a = 2^-149\<close> and 2 samples the step underflows to 0 and the result is 0.  With
  \<open>b - a\<close> the largest finite \<open>float\<close> and 25 samples the product overflows to \<open>+inf\<close>.
\<close>

lemma saturated_run:
  "numericalIntegration unit_integrand zero_f one_f 33554432 0 = half_f"
proof -
  have "sample_sum unit_integrand zero_f one_f 33554432 0 = Fin False (2 ^ 24 * 2 ^ 149)"
    unfolding unit_sample_sum by simp
  moreover have "step_size zero_f one_f 33554432 = Fin False (2 ^ 124)"
    by (simp add: step_size_def eval_float)
  ultimately show ?thesis
    unfolding numericalIntegration_step_sum by (simp add: eval_float)
qed

lemma underflow_run:
  "numericalIntegration unit_integrand zero_f (Fin False 1) 2 0 = zero_f"
proof -
  have "sample_sum unit_integrand zero_f (Fin False 1) 2 0 = Fin False (2 * 2 ^ 149)"
    unfolding unit_sample_sum by simp
  moreover have "step_size zero_f (Fin False 1) 2 = Fin False 0"
    by (simp add: step_size_def eval_float)
  ultimately show ?thesis
    unfolding numericalIntegration_step_sum by (simp add: eval_float)
qed

lemma overflow_run:
  "numericalIntegration unit_integrand zero_f (Fin False ((2 ^ 24 - 1) * 2 ^ 253)) 25 0
     = Inf False"
proof -
  have "sample_sum unit_integrand zero_f (Fin False ((2 ^ 24 - 1) * 2 ^ 253)) 25 0
          = Fin False (25 * 2 ^ 149)"
    unfolding unit_sample_sum by simp
  moreover have "step_size zero_f (Fin False ((2 ^ 24 - 1) * 2 ^ 253)) 25
          = Fin False (5368709 * 2 ^ 250)"
    by (simp add: step_size_def eval_float)
  ultimately show ?thesis
    unfolding numericalIntegration_step_sum by (simp add: eval_float)
qed

theorem constant_integrand_counterexample:
  "1 \<le>s (33554432 :: int32)
   \<and> fsub one_f zero_f = one_f
   \<and> numericalIntegration unit_integrand zero_f one_f 33554432 0 = half_f
   \<and> fsub (Fin False 1) zero_f = Fin False 1
   \<and> numericalIntegration unit_integrand zero_f (Fin False 1) 2 0 = zero_f
   \<and> fsub (Fin False ((2 ^ 24 - 1) * 2 ^ 253)) zero_f = Fin False ((2 ^ 24 - 1) * 2 ^ 253)
   \<and> numericalIntegration unit_integrand zero_f (Fin False ((2 ^ 24 - 1) * 2 ^ 253)) 25 0
       = Inf False"
  unfolding saturated_run underflow_run overflow_run by (simp add: eval_float)

section \<open>The driver: validation and output\<close>

text \<open>
  Claim C4.  With fewer than 5 arguments after the program name, the program writes the usage
  line \<open>usage: <prog> <functionid> <a> <b> <n> <intensity>\<close>, \<open><prog>\<close> being \<open>argv[0]\<close>, to
  standard error, returns \<open>-1\<close>, writes nothing to standard output and starts no integration.
  The outcome is the same on every platform: it depends on no parsed value, the count being
  checked first.
\<close>

theorem main_usage:
  assumes "length args < 5"
  shows "main p prog args =
           \<lparr>out = [],
            err = ''usage: '' @ prog @ '' <functionid> <a> <b> <n> <intensity>'' @ [CHR 0x0A],
            status = - 1, events = []\<rparr>"
  using assms by (simp add: main_def endl_def put_def fresh_stream_def)

theorem main_usage_witness:
  "length [''1'', ''0'', ''1'', ''10''] < 5
   \<and> main example_platform ''./integrate'' [''1'', ''0'', ''1'', ''10''] =
       \<lparr>out = [],
        err = ''usage: ./integrate <functionid> <a> <b> <n> <intensity>'' @ [CHR 0x0A],
        status = - 1, events = []\<rparr>"
  using main_usage [of "[''1'', ''0'', ''1'', ''10'']" example_platform "''./integrate''"]
  by simp

text \<open>
  Claim C3.  With at least 5 arguments and a function id, as \<open>atoi\<close> reads it from the first
  argument, outside 1, 2, 3, 4, the program writes exactly
  \<open>Error: Invalid function ID (must be 1, 2, 3, or 4)\<close> and a newline to standard error,
  returns \<open>-1\<close>, which is not 0, writes nothing to standard output and starts no integration.
\<close>

theorem main_invalid_function_id:
  assumes "5 \<le> length args" and "atoi p (args ! 0) \<notin> {1, 2, 3, 4}"
  shows "main p prog args =
           \<lparr>out = [],
            err = ''Error: Invalid function ID (must be 1, 2, 3, or 4)'' @ [CHR 0x0A],
            status = - 1, events = []\<rparr>
         \<and> status (main p prog args) \<noteq> 0"
  using assms by (simp add: main_def endl_def put_def fresh_stream_def dispatch_def)

theorem main_invalid_function_id_witness:
  "5 \<le> length [''7'', ''0'', ''1'', ''10'', ''0'']
   \<and> atoi example_platform ([''7'', ''0'', ''1'', ''10'', ''0''] ! 0) \<notin> {1, 2, 3, 4}
   \<and> main example_platform ''./integrate'' [''7'', ''0'', ''1'', ''10'', ''0''] =
       \<lparr>out = [],
        err = ''Error: Invalid function ID (must be 1, 2, 3, or 4)'' @ [CHR 0x0A],
        status = - 1, events = []\<rparr>"
proof -
  have a: "5 \<le> length [''7'', ''0'', ''1'', ''10'', ''0'']" by simp
  have b: "atoi example_platform ([''7'', ''0'', ''1'', ''10'', ''0''] ! 0) \<notin> {1, 2, 3, 4}"
    by (simp add: example_platform_def)
  show ?thesis
    using a b main_invalid_function_id [OF a b, of "''./integrate''"] by simp
qed

lemma example_atoi:
  "atoi example_platform ''1'' = 1" "atoi example_platform ''0'' = 0"
  "atoi example_platform ''3'' = 3" "atoi example_platform ''7'' = 7"
  "atof example_platform ''1'' = float_of_int 1" "atof example_platform ''0'' = float_of_int 0"
  by (simp_all add: example_platform_def)

lemma example_run_1:
  "numericalIntegration_run id_integrand (float_of_int 0) (float_of_int 1) 3 0 =
     (Fin False (2 ^ 148),
      [(Fin False (11184811 * 2 ^ 123), 0), (Fin False (2 ^ 148), 0),
       (Fin False (6990507 * 2 ^ 126), 0)])"
  by (simp add: eval_loop eval_float id_integrand_def)

text \<open>
  Claim C2.  The switch maps the function ids 1, 2, 3, 4 to the pointers to \<open>f1\<close>, \<open>f2\<close>,
  \<open>f3\<close>, \<open>f4\<close>, a call through such a pointer calls that function, and every other id
  selects nothing.  In a run with at least 5 arguments, when the id selects a pointer the
  integration runs once and every integrand call goes through this pointer; when the id
  selects nothing the run is rejected: nothing on standard output, a non-zero return value,
  and no integration.
\<close>

theorem dispatch_selects:
  "dispatch 1 = Some ptr_f1 \<and> dispatch 2 = Some ptr_f2
   \<and> dispatch 3 = Some ptr_f3 \<and> dispatch 4 = Some ptr_f4
   \<and> call p ptr_f1 = f1 p \<and> call p ptr_f2 = f2 p \<and> call p ptr_f3 = f3 p \<and> call p ptr_f4 = f4 p
   \<and> (functionId \<notin> {1, 2, 3, 4} \<longrightarrow> dispatch functionId = None)
   \<and> (5 \<le> length args \<longrightarrow> dispatch (atoi p (args ! 0)) = Some fp \<longrightarrow>
        events (main p prog args) =
          Integrate fp #
          map (\<lambda>(x, k). Call fp x k)
            (snd (numericalIntegration_run (call p fp) (atof p (args ! 1)) (atof p (args ! 2))
                    (atoi p (args ! 3)) (atoi p (args ! 4)))))
   \<and> (5 \<le> length args \<longrightarrow> dispatch (atoi p (args ! 0)) = None \<longrightarrow>
        events (main p prog args) = [] \<and> out (main p prog args) = []
        \<and> status (main p prog args) = - 1)"
  by (simp add: dispatch_def main_def split: prod.splits)

theorem dispatch_selects_witness:
  "5 \<le> length [''1'', ''0'', ''1'', ''3'', ''0'']
   \<and> dispatch (atoi example_platform ([''1'', ''0'', ''1'', ''3'', ''0''] ! 0)) = Some ptr_f1
   \<and> events (main example_platform ''./integrate'' [''1'', ''0'', ''1'', ''3'', ''0'']) =
       [Integrate ptr_f1, Call ptr_f1 (Fin False (11184811 * 2 ^ 123)) 0,
        Call ptr_f1 (Fin False (2 ^ 148)) 0, Call ptr_f1 (Fin False (6990507 * 2 ^ 126)) 0]
   \<and> 5 \<le> length [''7'', ''0'', ''1'', ''3'', ''0'']
   \<and> (7 :: int32) \<notin> {1, 2, 3, 4}
   \<and> dispatch (atoi example_platform ([''7'', ''0'', ''1'', ''3'', ''0''] ! 0)) = None
   \<and> events (main example_platform ''./integrate'' [''7'', ''0'', ''1'', ''3'', ''0'']) = []"
proof -
  have f: "f1 example_platform = id_integrand" by (simp add: example_platform_def)
  have l1: "5 \<le> length [''1'', ''0'', ''1'', ''3'', ''0'']" by simp
  have l7: "5 \<le> length [''7'', ''0'', ''1'', ''3'', ''0'']" by simp
  have m7: "(7 :: int32) \<notin> {1, 2, 3, 4}" by simp
  have s: "dispatch (atoi example_platform ([''1'', ''0'', ''1'', ''3'', ''0''] ! 0)) = Some ptr_f1"
    by (simp add: example_atoi dispatch_def)
  have n: "dispatch (atoi example_platform ([''7'', ''0'', ''1'', ''3'', ''0''] ! 0)) = None"
    by (simp add: example_atoi dispatch_def)
  from l1 s
    dispatch_selects [of example_platform 7 "[''1'', ''0'', ''1'', ''3'', ''0'']" ptr_f1
      "''./integrate''"]
  have "events (main example_platform ''./integrate'' [''1'', ''0'', ''1'', ''3'', ''0'']) =
          Integrate ptr_f1 #
          map (\<lambda>(x, k). Call ptr_f1 x k)
            (snd (numericalIntegration_run (call example_platform ptr_f1)
                    (atof example_platform ([''1'', ''0'', ''1'', ''3'', ''0''] ! 1))
                    (atof example_platform ([''1'', ''0'', ''1'', ''3'', ''0''] ! 2))
                    (atoi example_platform ([''1'', ''0'', ''1'', ''3'', ''0''] ! 3))
                    (atoi example_platform ([''1'', ''0'', ''1'', ''3'', ''0''] ! 4))))"
    by blast
  then have e1: "events (main example_platform ''./integrate'' [''1'', ''0'', ''1'', ''3'', ''0'']) =
       [Integrate ptr_f1, Call ptr_f1 (Fin False (11184811 * 2 ^ 123)) 0,
        Call ptr_f1 (Fin False (2 ^ 148)) 0, Call ptr_f1 (Fin False (6990507 * 2 ^ 126)) 0]"
    by (simp add: example_atoi f example_run_1)
  from l7 n
    dispatch_selects [of example_platform 7 "[''7'', ''0'', ''1'', ''3'', ''0'']" ptr_f1
      "''./integrate''"]
  have e7: "events (main example_platform ''./integrate'' [''7'', ''0'', ''1'', ''3'', ''0'']) = []"
    by blast
  from l1 s e1 l7 m7 n e7 show ?thesis by blast
qed

text \<open>
  Claim C9.  In a run with at least 5 arguments and a function id that selects an integrand,
  standard output receives the result, printed as a \<open>float\<close> with no \<open>floatfield\<close> flag set
  and precision 15 (general format, 15 significant digits), one space, the elapsed seconds,
  printed as a \<open>double\<close> with the \<open>fixed\<close> flag and precision 6 (6 digits after the point),
  and a newline; nothing goes to standard error and \<open>main\<close> returns 0.
\<close>

theorem main_success_output:
  assumes "5 \<le> length args" and "dispatch (atoi p (args ! 0)) = Some fp"
  shows "out (main p prog args) =
           show_float p default_notation 15
             (numericalIntegration (call p fp) (atof p (args ! 1)) (atof p (args ! 2))
                (atoi p (args ! 3)) (atoi p (args ! 4)))
           @ '' '' @ show_double p fixed_notation 6 (elapsed p) @ [CHR 0x0A]
         \<and> err (main p prog args) = [] \<and> status (main p prog args) = 0"
  using assms
  by (simp add: main_def endl_def put_def fresh_stream_def numericalIntegration_def
        put_float_def put_double_def fixed_def setprecision_def split: prod.splits)

theorem main_success_output_witness:
  "5 \<le> length [''1'', ''0'', ''1'', ''3'', ''0'']
   \<and> dispatch (atoi example_platform ([''1'', ''0'', ''1'', ''3'', ''0''] ! 0)) = Some ptr_f1
   \<and> out (main example_platform ''./integrate'' [''1'', ''0'', ''1'', ''3'', ''0''])
       = ''<result> <seconds>'' @ [CHR 0x0A]
   \<and> status (main example_platform ''./integrate'' [''1'', ''0'', ''1'', ''3'', ''0'']) = 0"
proof -
  have l: "5 \<le> length [''1'', ''0'', ''1'', ''3'', ''0'']" by simp
  have s: "dispatch (atoi example_platform ([''1'', ''0'', ''1'', ''3'', ''0''] ! 0)) = Some ptr_f1"
    by (simp add: example_atoi dispatch_def)
  have sh: "show_float example_platform = (\<lambda>fl d v. ''<result>'')"
    "show_double example_platform = (\<lambda>fl d v. ''<seconds>'')"
    by (simp_all add: example_platform_def)
  show ?thesis
    using l s main_success_output [OF l s, of "''./integrate''"] by (simp add: sh)
qed

end
